theory Spec2Isabelle
  imports Main "HOL-Library.Sublist"
begin

section \<open>Text, characters and Python string helpers\<close>

text \<open>
  A Python \<open>str\<close> is modelled as a \<open>string\<close> whose characters are the code points
  below 256. On that range \<open>str.isspace\<close> (and the regex class \<open>\s\<close>) holds for
  9-13, 28-32, 133 and 160, and the regex class \<open>\d\<close> holds for the ASCII digits only.
\<close>

abbreviation NL :: char where "NL \<equiv> CHR 0x0A"
abbreviation TAB :: char where "TAB \<equiv> CHR 0x09"

text \<open>The exceptions raised; \<open>OSError\<close> is also what Python calls \<open>IOError\<close>.\<close>

datatype error = OSError | ValueError | IndexError | EOFError | KeyboardInterrupt | ExpatError

definition is_space :: "char \<Rightarrow> bool" where
  "is_space c = (let n = (of_char c :: nat)
                 in (9 \<le> n \<and> n \<le> 13) \<or> (28 \<le> n \<and> n \<le> 32) \<or> n = 133 \<or> n = 160)"

definition is_digit :: "char \<Rightarrow> bool" where
  "is_digit c = (let n = (of_char c :: nat) in 48 \<le> n \<and> n \<le> 57)"

definition digit_val :: "char \<Rightarrow> nat" where
  "digit_val c = of_char c - 48"

definition digit_chr :: "nat \<Rightarrow> char" where
  "digit_chr d = char_of (48 + d)"

text \<open>\<open>str.strip()\<close>: whitespace removed at both ends.\<close>

definition strip :: "string \<Rightarrow> string" where
  "strip s = rev (dropWhile is_space (rev (dropWhile is_space s)))"

text \<open>\<open>str.lower()\<close> on code points below 256.\<close>

definition lower_chr :: "char \<Rightarrow> char" where
  "lower_chr c = (let n = (of_char c :: nat)
                  in if (65 \<le> n \<and> n \<le> 90) \<or> (192 \<le> n \<and> n \<le> 222 \<and> n \<noteq> 215)
                     then char_of (n + 32) else c)"

definition lower :: "string \<Rightarrow> string" where
  "lower s = map lower_chr s"

text \<open>\<open>s.ljust(n, c)\<close>: pad on the right up to width \<open>n\<close>; never truncates.\<close>

definition ljust :: "string \<Rightarrow> nat \<Rightarrow> char \<Rightarrow> string" where
  "ljust s n c = s @ replicate (n - length s) c"

text \<open>\<open>s.split(sep)\<close> for a one-character separator: every occurrence splits.\<close>

fun split_chr :: "char \<Rightarrow> string \<Rightarrow> string list" where
  "split_chr sep [] = [[]]"
| "split_chr sep (c # cs) =
     (if c = sep then [] # split_chr sep cs
      else (case split_chr sep cs of
              [] \<Rightarrow> [[c]]
            | w # ws \<Rightarrow> (c # w) # ws))"

text \<open>\<open>s.split(sep, 1)\<close>: at most one split, at the first occurrence.\<close>

definition split_once :: "char \<Rightarrow> string \<Rightarrow> string list" where
  "split_once sep s =
     (if sep \<in> set s
      then [takeWhile (\<lambda>c. c \<noteq> sep) s, tl (dropWhile (\<lambda>c. c \<noteq> sep) s)]
      else [s])"

text \<open>\<open>sep.join(ws)\<close> for a one-character separator.\<close>

fun join_chr :: "char \<Rightarrow> string list \<Rightarrow> string" where
  "join_chr sep [] = []"
| "join_chr sep [w] = w"
| "join_chr sep (w # ws) = w @ sep # join_chr sep ws"

text \<open>\<open>s.replace(a, b)\<close> for single characters.\<close>

definition replace_chr :: "char \<Rightarrow> char \<Rightarrow> string \<Rightarrow> string" where
  "replace_chr a b s = map (\<lambda>c. if c = a then b else c) s"

subsection \<open>Integers and their decimal text\<close>

text \<open>
  \<open>str(n)\<close> for a Python integer, and \<open>int(s)\<close> for a string: surrounding whitespace
  is dropped, one sign is allowed, and single underscores may separate digits; anything
  else raises \<open>ValueError\<close>. Integers are unbounded, but the conversions are not: Python
  refuses, with \<open>ValueError\<close>, to write an integer of more than 4300 decimal digits and
  to read a string of more than 4300 digit characters (the sign and the underscores are
  not counted).
\<close>

definition MAX_STR_DIGITS :: nat where
  "MAX_STR_DIGITS = 4300"

fun dec :: "nat \<Rightarrow> string" where
  "dec n = (if n < 10 then [digit_chr n] else dec (n div 10) @ [digit_chr (n mod 10)])"

declare dec.simps [simp del]

definition py_str :: "int \<Rightarrow> error + string" where
  "py_str n =
     (let ds = dec (nat \<bar>n\<bar>)
      in if MAX_STR_DIGITS < length ds then Inl ValueError
         else Inr (if n < 0 then CHR ''-'' # ds else ds))"

fun int_digits :: "nat \<Rightarrow> string \<Rightarrow> error + nat" where
  "int_digits acc [] = Inr acc"
| "int_digits acc (c # cs) =
     (if is_digit c then int_digits (10 * acc + digit_val c) cs
      else if c = CHR ''_'' \<and> cs \<noteq> [] \<and> is_digit (hd cs) then int_digits acc cs
      else Inl ValueError)"

definition int_unsigned :: "string \<Rightarrow> error + nat" where
  "int_unsigned s =
     (if MAX_STR_DIGITS < length (filter is_digit s) then Inl ValueError
      else case s of
             [] \<Rightarrow> Inl ValueError
           | c # cs \<Rightarrow> if is_digit c then int_digits 0 s else Inl ValueError)"

definition py_int :: "string \<Rightarrow> error + int" where
  "py_int s =
     (case strip s of
        [] \<Rightarrow> Inl ValueError
      | c # cs \<Rightarrow>
          if c = CHR ''-'' then map_sum id (\<lambda>n. - int n) (int_unsigned cs)
          else if c = CHR ''+'' then map_sum id int (int_unsigned cs)
          else map_sum id int (int_unsigned (c # cs)))"

section \<open>The block pattern and its matcher\<close>

text \<open>
  \<open>SSH_KEY_FILE_REGEX\<close> is a sequence of literals, greedy one-or-more repetitions of a
  character class (five of them named groups) and one optional newline. The matcher is
  the backtracking one of Python's \<open>re\<close>: a repetition first takes the longest run and
  gives characters back one at a time while the rest of the pattern fails.
\<close>

datatype cclass = Chr char | AnyChr | NonSpace | Digit

fun in_class :: "cclass \<Rightarrow> char \<Rightarrow> bool" where
  "in_class (Chr a) c = (c = a)"
| "in_class AnyChr c = (c \<noteq> NL)"
| "in_class NonSpace c = (\<not> is_space c)"
| "in_class Digit c = is_digit c"

datatype item = Lit string | Plus "string option" cclass | Opt char

type_synonym groups = "(string \<times> string) list"

fun add_group :: "string option \<Rightarrow> string \<Rightarrow> groups \<Rightarrow> groups" where
  "add_group None x g = g"
| "add_group (Some name) x g = (name, x) # g"

text \<open>\<open>backtrack k\<close> tries the repetition with \<open>k\<close>, \<open>k - 1\<close>, ..., 1 characters.\<close>

fun backtrack :: "(string \<Rightarrow> string \<Rightarrow> 'a option) \<Rightarrow> string \<Rightarrow> nat \<Rightarrow> 'a option" where
  "backtrack cont s 0 = None"
| "backtrack cont s (Suc k) =
     (case cont (take (Suc k) s) (drop (Suc k) s) of
        Some r \<Rightarrow> Some r
      | None \<Rightarrow> backtrack cont s k)"

text \<open>A match at the head of the text: the groups and the text after the match.\<close>

fun match_here :: "item list \<Rightarrow> string \<Rightarrow> (groups \<times> string) option" where
  "match_here [] s = Some ([], s)"
| "match_here (Lit l # is) s =
     (if prefix l s then match_here is (drop (length l) s) else None)"
| "match_here (Plus name cls # is) s =
     backtrack
       (\<lambda>x rest. map_option (\<lambda>(g, r). (add_group name x g, r)) (match_here is rest))
       s (length (takeWhile (in_class cls) s))"
| "match_here (Opt c # is) s =
     (case s of
        [] \<Rightarrow> match_here is s
      | x # s' \<Rightarrow>
          if x = c
          then (case match_here is s' of Some r \<Rightarrow> Some r | None \<Rightarrow> match_here is s)
          else match_here is s)"

definition SSH_KEY_FILE_REGEX :: "item list" where
  "SSH_KEY_FILE_REGEX =
     [Lit ''Host'', Plus None (Chr CHR '' ''), Plus (Some ''ID'') AnyChr,
      Lit (NL # TAB # ''Hostname''), Plus None (Chr CHR '' ''), Plus (Some ''hostname'') NonSpace,
      Lit (NL # TAB # ''User''), Plus None (Chr CHR '' ''), Plus (Some ''user'') NonSpace,
      Lit (NL # TAB # ''Port''), Plus None (Chr CHR '' ''), Plus (Some ''port'') Digit,
      Lit (NL # TAB # ''IdentityFile''), Plus None (Chr CHR '' ''), Plus (Some ''key_file'') NonSpace,
      Opt NL]"

text \<open>
  What a match is, without the search order: \<open>sem is s g rest\<close> holds when \<open>s\<close> is a
  text matched by the items \<open>is\<close>, with named groups \<open>g\<close>, followed by \<open>rest\<close>.
\<close>

inductive sem :: "item list \<Rightarrow> string \<Rightarrow> groups \<Rightarrow> string \<Rightarrow> bool" where
  sem_Nil: "sem [] s [] s"
| sem_Lit: "sem is s g rest \<Longrightarrow> sem (Lit l # is) (l @ s) g rest"
| sem_Plus: "x \<noteq> [] \<Longrightarrow> list_all (in_class cls) x \<Longrightarrow> sem is s g rest
             \<Longrightarrow> sem (Plus name cls # is) (x @ s) (add_group name x g) rest"
| sem_Opt_take: "sem is s g rest \<Longrightarrow> sem (Opt c # is) (c # s) g rest"
| sem_Opt_skip: "sem is s g rest \<Longrightarrow> sem (Opt c # is) s g rest"

lemma backtrack_sound:
  "backtrack cont s n = Some r \<Longrightarrow> \<exists>k. 0 < k \<and> k \<le> n \<and> cont (take k s) (drop k s) = Some r"
proof (induction n)
  case 0
  then show ?case by simp
next
  case (Suc n)
  show ?case
  proof (cases "cont (take (Suc n) s) (drop (Suc n) s)")
    case None
    with Suc.prems have "backtrack cont s n = Some r" by simp
    from Suc.IH[OF this] obtain k where "0 < k" "k \<le> n" "cont (take k s) (drop k s) = Some r"
      by blast
    then show ?thesis by (intro exI[of _ k]) simp
  next
    case (Some a)
    with Suc.prems have "a = r" by simp
    with Some show ?thesis by (intro exI[of _ "Suc n"]) simp
  qed
qed

lemma backtrack_complete:
  "0 < k \<Longrightarrow> k \<le> n \<Longrightarrow> cont (take k s) (drop k s) \<noteq> None \<Longrightarrow> backtrack cont s n \<noteq> None"
proof (induction n)
  case 0
  then show ?case by simp
next
  case (Suc n)
  show ?case
  proof (cases "k = Suc n")
    case True
    with Suc.prems show ?thesis by (auto split: option.splits)
  next
    case False
    with Suc.prems have "k \<le> n" by simp
    with Suc have "backtrack cont s n \<noteq> None" by blast
    then show ?thesis by (auto split: option.splits)
  qed
qed

lemma backtrack_first:
  "0 < n \<Longrightarrow> cont (take n s) (drop n s) = Some r \<Longrightarrow> backtrack cont s n = Some r"
  by (cases n) simp_all

lemma take_takeWhile_all:
  "k \<le> length (takeWhile P s) \<Longrightarrow> list_all P (take k s)"
proof (induction s arbitrary: k)
  case Nil
  then show ?case by simp
next
  case (Cons a s)
  then show ?case by (cases k) (auto split: if_splits)
qed

lemma match_here_sound:
  "match_here is s = Some (g, rest) \<Longrightarrow> sem is s g rest"
proof (induction "is" arbitrary: s g rest)
  case Nil
  then show ?case by (auto intro: sem.intros)
next
  case (Cons i "is")
  show ?case
  proof (cases i)
    case (Lit l)
    with Cons.prems have p: "prefix l s" and m: "match_here is (drop (length l) s) = Some (g, rest)"
      by (auto split: if_splits)
    from p obtain t where s: "s = l @ t" by (auto simp: prefix_def)
    with m have "sem is t g rest" using Cons.IH by simp
    then show ?thesis unfolding Lit s by (rule sem_Lit)
  next
    case (Plus name cls)
    let ?n = "length (takeWhile (in_class cls) s)"
    from Cons.prems Plus obtain k where k: "0 < k" "k \<le> ?n"
      and c: "map_option (\<lambda>(g, r). (add_group name (take k s) g, r)) (match_here is (drop k s)) = Some (g, rest)"
      by (auto dest: backtrack_sound)
    from c obtain g' where m: "match_here is (drop k s) = Some (g', rest)"
      and g: "g = add_group name (take k s) g'"
      by auto
    have "?n \<le> length s" by (rule length_takeWhile_le)
    with k have ne: "take k s \<noteq> []" by auto
    have all: "list_all (in_class cls) (take k s)" using k(2) by (rule take_takeWhile_all)
    have "sem (Plus name cls # is) (take k s @ drop k s) (add_group name (take k s) g') rest"
      using ne all Cons.IH[OF m] by (rule sem_Plus)
    then show ?thesis unfolding Plus g by simp
  next
    case (Opt c)
    show ?thesis
    proof (cases "match_here is s = Some (g, rest)")
      case True
      then show ?thesis unfolding Opt by (intro sem_Opt_skip Cons.IH)
    next
      case False
      with Cons.prems Opt obtain s' where s: "s = c # s'" and m: "match_here is s' = Some (g, rest)"
        by (auto split: list.splits if_splits option.splits)
      show ?thesis unfolding Opt s using Cons.IH[OF m] by (rule sem_Opt_take)
    qed
  qed
qed

lemma match_here_complete:
  "sem is s g rest \<Longrightarrow> match_here is s \<noteq> None"
proof (induction rule: sem.induct)
  case (sem_Nil s)
  then show ?case by simp
next
  case (sem_Lit "is" s g rest l)
  then show ?case by simp
next
  case (sem_Plus x cls "is" s g rest name)
  let ?P = "in_class cls"
  have "length x \<le> length (takeWhile ?P (x @ s))"
    using sem_Plus.hyps(2) by (simp add: takeWhile_append2 list_all_iff)
  moreover have "0 < length x" using sem_Plus.hyps(1) by simp
  moreover have "map_option (\<lambda>(g, r). (add_group name (take (length x) (x @ s)) g, r))
                    (match_here is (drop (length x) (x @ s))) \<noteq> None"
    using sem_Plus.IH by simp
  ultimately show ?case
    using backtrack_complete[of "length x" "length (takeWhile ?P (x @ s))"
        "\<lambda>x rest. map_option (\<lambda>(g, r). (add_group name x g, r)) (match_here is rest)" "x @ s"]
    by simp
next
  case (sem_Opt_take "is" s g rest c)
  then show ?case by (auto split: option.splits)
next
  case (sem_Opt_skip "is" s g rest c)
  then show ?case by (auto split: list.splits option.splits)
qed

lemma sem_suffix: "sem is s g rest \<Longrightarrow> \<exists>m. s = m @ rest"
  by (induction rule: sem.induct) auto

lemma match_here_Lit_shorter:
  assumes "match_here (Lit l # is) s = Some (g, rest)"
  shows "length rest + length l \<le> length s"
proof -
  from assms have p: "prefix l s" and m: "match_here is (drop (length l) s) = Some (g, rest)"
    by (auto split: if_splits)
  from p obtain t where s: "s = l @ t" by (auto simp: prefix_def)
  from m s have "sem is t g rest" by (simp add: match_here_sound)
  then obtain m' where "t = m' @ rest" by (auto dest: sem_suffix)
  with s show ?thesis by simp
qed

lemma match_block_shorter:
  "match_here SSH_KEY_FILE_REGEX s = Some (g, rest) \<Longrightarrow> length rest < length s"
  unfolding SSH_KEY_FILE_REGEX_def by (drule match_here_Lit_shorter) simp

text \<open>
  \<open>re.finditer(pattern=SSH_KEY_FILE_REGEX, string=content)\<close>: the matches from left to
  right; the scan resumes where a match ended, and moves on one character where none starts.
\<close>

function finditer :: "string \<Rightarrow> groups list" where
  "finditer s =
     (case match_here SSH_KEY_FILE_REGEX s of
        Some (g, rest) \<Rightarrow> g # finditer rest
      | None \<Rightarrow> (case s of [] \<Rightarrow> [] | c # s' \<Rightarrow> finditer s'))"
  by pat_completeness auto
termination
  by (relation "measure length") (auto dest: match_block_shorter)

declare finditer.simps [simp del]

text \<open>\<open>match.group(name)\<close>.\<close>

definition group :: "groups \<Rightarrow> string \<Rightarrow> error + string" where
  "group m name = (case map_of m name of None \<Rightarrow> Inl IndexError | Some v \<Rightarrow> Inr v)"

section \<open>Host records and the configuration file\<close>

record SSHConfig =
  ID :: string
  hostname :: string
  user :: string
  port :: int
  key_file :: string

text \<open>A raised exception ends the computation: the rest runs on a value only.\<close>

definition bind_err :: "error + 'a \<Rightarrow> ('a \<Rightarrow> error + 'b) \<Rightarrow> error + 'b" where
  "bind_err r f = (case r of Inl e \<Rightarrow> Inl e | Inr v \<Rightarrow> f v)"

text \<open>The record built from one match (the body of the loop of \<open>file_to_dataclass\<close>).\<close>

definition config_of_match :: "groups \<Rightarrow> error + SSHConfig" where
  "config_of_match m =
     bind_err (group m ''ID'') (\<lambda>i.
     bind_err (group m ''hostname'') (\<lambda>h.
     bind_err (group m ''user'') (\<lambda>u.
     bind_err (bind_err (group m ''port'') py_int) (\<lambda>p.
     bind_err (group m ''key_file'') (\<lambda>k.
     Inr \<lparr>ID = i, hostname = h, user = u, port = p, key_file = k\<rparr>)))))"

fun collect :: "groups list \<Rightarrow> error + SSHConfig list" where
  "collect [] = Inr []"
| "collect (m # ms) =
     bind_err (config_of_match m) (\<lambda>c. bind_err (collect ms) (\<lambda>cs. Inr (c # cs)))"

text \<open>
  \<open>file_to_dataclass\<close>, on what opening the file gives: \<open>None\<close> when it cannot be
  read, its content otherwise.
\<close>

definition file_to_dataclass :: "string option \<Rightarrow> error + SSHConfig list" where
  "file_to_dataclass file =
     (case file of
        None \<Rightarrow> Inl OSError
      | Some content \<Rightarrow> collect (finditer content))"

text \<open>
  The text written for one record: the five f-strings, of which the one with the port
  raises when the port cannot be written.
\<close>

definition block :: "SSHConfig \<Rightarrow> error + string" where
  "block config =
     bind_err (py_str (port config)) (\<lambda>p. Inr (
       ''Host '' @ ID config @ [NL] @
       TAB # ''Hostname '' @ hostname config @ [NL] @
       TAB # ''User '' @ user config @ [NL] @
       TAB # ''Port '' @ p @ [NL] @
       TAB # ''IdentityFile '' @ key_file config @ [NL, NL]))"

text \<open>
  \<open>dataclass_to_file\<close>: how the call ends, and the content the (truncated) file is left
  with: a block for every record, or the blocks written before an exception.
\<close>

fun dataclass_to_file :: "SSHConfig list \<Rightarrow> (error + unit) \<times> string" where
  "dataclass_to_file [] = (Inr (), [])"
| "dataclass_to_file (config # data) =
     (case block config of
        Inl e \<Rightarrow> (Inl e, [])
      | Inr b \<Rightarrow>
          (case dataclass_to_file data of
             (r, written) \<Rightarrow> (r, b @ written)))"

section \<open>The shell\<close>

text \<open>
  What lies outside the program is a parameter: the home directory, the outcome of
  running the \<open>ssh\<close> command line, whether \<open>ping\<close> reaches a host, the outcome of
  the key generation of the wizard (creating the key directory, removing an old key pair,
  \<open>ssh-keygen\<close>, opening the public key file): the content of the public key file,
  or the exception raised; and whether the formatting library accepts a markup text:
  its \<open>HTML(...)\<close> parses the text as XML and raises \<open>ExpatError\<close> when it is not
  well-formed.
\<close>

datatype proc_result = Completed string string | Interrupted | SpawnFailed

record env =
  home :: string
  ssh_proc :: "string list \<Rightarrow> proc_result"
  ping :: "string \<Rightarrow> bool"
  keygen :: "string \<Rightarrow> error + string"
  html_ok :: "string \<Rightarrow> bool"

definition DEFAULT_USER :: string where
  "DEFAULT_USER = ''admin''"

definition DEFAULT_PORT :: int where
  "DEFAULT_PORT = 22"

definition CONFIG_FILE :: "env \<Rightarrow> string" where
  "CONFIG_FILE e = home e @ ''/.ssh/config''"

definition SSH_KEY_DIR :: "env \<Rightarrow> string" where
  "SSH_KEY_DIR e = home e @ ''/.ssh/keys''"

text \<open>
  The state: what opening \<open>CONFIG_FILE\<close> gives (\<open>None\<close> when it cannot be read), and
  everything written to the terminal so far, each event with the characters written.
  Writing \<open>CONFIG_FILE\<close> is taken to succeed. The line editor's own display of a prompt
  is not recorded.
\<close>

datatype event = Stdout string | Stderr string | StdoutHTML string | StderrHTML string
  | ClearScreen

record world =
  config :: "string option"
  outputs :: "event list"

definition emit :: "event \<Rightarrow> world \<Rightarrow> world" where
  "emit x w = w\<lparr>outputs := outputs w @ [x]\<rparr>"

text \<open>\<open>print(s)\<close>, and \<open>stderr(s)\<close> with its default \<open>end\<close>.\<close>

definition print :: "string \<Rightarrow> world \<Rightarrow> world" where
  "print s w = emit (Stdout (s @ [NL])) w"

definition stderr :: "string \<Rightarrow> world \<Rightarrow> world" where
  "stderr s w = emit (Stderr (s @ [NL])) w"

text \<open>
  What the user does at a prompt: enters a line, or interrupts (\<open>KeyboardInterrupt\<close>),
  or ends the input (\<open>EOFError\<close>); exhausted input is end of input.
\<close>

datatype input = Line string | CtrlC | CtrlD

fun prompt :: "input list \<Rightarrow> (error + string) \<times> input list" where
  "prompt [] = (Inl EOFError, [])"
| "prompt (Line s # ins) = (Inr s, ins)"
| "prompt (CtrlC # ins) = (Inl KeyboardInterrupt, ins)"
| "prompt (CtrlD # ins) = (Inl EOFError, ins)"

fun yes :: "input list \<Rightarrow> (error + bool) \<times> input list" where
  "yes [] = (Inl EOFError, [])"
| "yes (CtrlC # ins) = (Inl KeyboardInterrupt, ins)"
| "yes (CtrlD # ins) = (Inl EOFError, ins)"
| "yes (Line s # ins) =
     (let a = lower (strip s)
      in if a \<in> set [''y'', ''yes'', []] then (Inr True, ins)
         else if a \<in> set [''n'', ''no''] then (Inr False, ins)
         else yes ins)"

text \<open>\<open>max\<close> of a sequence: raises \<open>ValueError\<close> on an empty one.\<close>

definition py_max :: "nat list \<Rightarrow> error + nat" where
  "py_max xs = (case xs of [] \<Rightarrow> Inl ValueError | x # r \<Rightarrow> Inr (fold max r x))"

subsection \<open>\<open>list_config\<close>\<close>

definition table_row :: "nat \<Rightarrow> nat \<Rightarrow> SSHConfig \<Rightarrow> string" where
  "table_row i j host =
     ljust (ID host) i CHR ''.'' @ '' | '' @
     ljust (user host @ ''@'' @ hostname host) j CHR ''.''"

text \<open>The constant \<open>''IDENTIFIER''\<close> is \<open>"identifier".upper()\<close>.\<close>

definition list_config :: "world \<Rightarrow> (error + unit) \<times> world" where
  "list_config w =
     (case file_to_dataclass (config w) of
        Inl e \<Rightarrow> (Inl e, w)
      | Inr hosts \<Rightarrow>
     (case py_max (map (\<lambda>h. length (ID h)) hosts) of
        Inl e \<Rightarrow> (Inl e, w)
      | Inr i \<Rightarrow>
     (case py_max (map (\<lambda>h. length (hostname h) + 1 + length (user h)) hosts) of
        Inl e \<Rightarrow> (Inl e, w)
      | Inr j \<Rightarrow>
          let w1 = print (ljust ''IDENTIFIER'' i CHR '' '' @ '' | HOST'') w;
              w2 = print (replicate (i + j + 3) CHR ''='') w1;
              w3 = fold (\<lambda>host. print (table_row i j host)) hosts w2
          in (case hosts of
                [] \<Rightarrow> (Inl IndexError, w3)
              | h0 # _ \<Rightarrow>
                  (Inr (),
                   print (NL # ''Usage: '' @ [CHR 0x27] @ ''ssh <identifier>'' @ [CHR 0x27] @
                          '' (eg: ssh '' @ ID h0 @ '')'') w3)))))"

subsection \<open>\<open>add_host\<close>\<close>

text \<open>
  The wizard, in the order of the source: the domain name and the alias (lines 143-146),
  the reachability probe (149-155), user and port (158-161), the check for an existing
  configuration (164-171), the keys and the new file (174-202). Each part hands the state
  and the remaining input to the next.
\<close>

definition key_path :: "env \<Rightarrow> string \<Rightarrow> string" where
  "key_path e hn = SSH_KEY_DIR e @ ''/'' @ replace_chr CHR ''.'' CHR ''_'' hn"

definition REVERSED :: string where
  "REVERSED = CHR 0x1B # ''[7m''"

definition RESET :: string where
  "RESET = CHR 0x1B # ''[0m''"

definition wizard_done :: "string \<Rightarrow> string \<Rightarrow> string list" where
  "wizard_done public_key alias =
     [''... wizard done.'', [],
      ''PUBLIC KEY: '' @ REVERSED @ public_key @ RESET, [],
      ''To connect to the VM follow these steps:'',
      TAB # ''1. copy the public key to the cloud-init drive of the VM. '' @
        [NL, TAB] @ ''   this can be done in proxmox'',
      TAB # ''2. run '' @ REVERSED @ ''ssh '' @ alias @ RESET @ '' to connect to the VM'']"

definition add_host_write ::
  "env \<Rightarrow> string \<Rightarrow> string \<Rightarrow> string \<Rightarrow> int \<Rightarrow> SSHConfig list \<Rightarrow> world \<Rightarrow> input list
   \<Rightarrow> (error + unit) \<times> world \<times> input list" where
  "add_host_write e hn alias usr prt hosts w ins =
     (let w1 = print ''generating keys ...'' w
      in case keygen e (key_path e hn) of
           Inl err \<Rightarrow> (Inl err, w1, ins)
         | Inr pub \<Rightarrow>
             let new_config_data =
                   \<lparr>ID = alias, hostname = hn, user = usr, port = prt,
                    key_file = key_path e hn\<rparr>
             in (case dataclass_to_file (hosts @ [new_config_data]) of
                   (Inl err, written) \<Rightarrow> (Inl err, w1\<lparr>config := Some written\<rparr>, ins)
                 | (Inr _, written) \<Rightarrow>
                     (Inr (),
                      fold print (wizard_done (strip pub) alias) (w1\<lparr>config := Some written\<rparr>),
                      ins)))"

definition add_host_store ::
  "env \<Rightarrow> string \<Rightarrow> string \<Rightarrow> string \<Rightarrow> int \<Rightarrow> world \<Rightarrow> input list
   \<Rightarrow> (error + unit) \<times> world \<times> input list" where
  "add_host_store e hn alias usr prt w ins =
     (case file_to_dataclass (config w) of
        Inl err \<Rightarrow> (Inl err, w, ins)
      | Inr hosts \<Rightarrow>
          if list_ex (\<lambda>h. hn = hostname h) hosts
          then
            (let w1 = emit (Stderr (''There is already a configuration for the host '' @ hn @
                        '', do you want to overwrite it? [Y/n] '')) w
             in case yes ins of
                  (Inl err, ins') \<Rightarrow> (Inl err, w1, ins')
                | (Inr ok, ins') \<Rightarrow>
                    if \<not> ok then (Inr (), stderr ''... aborting'' w1, ins')
                    else add_host_write e hn alias usr prt
                           (filter (\<lambda>h. hostname h \<noteq> hn) hosts) w1 ins')
          else add_host_write e hn alias usr prt hosts w ins)"

definition add_host_ask ::
  "env \<Rightarrow> string \<Rightarrow> string \<Rightarrow> world \<Rightarrow> input list \<Rightarrow> (error + unit) \<times> world \<times> input list" where
  "add_host_ask e hn alias w ins =
     (case prompt ins of
        (Inl err, ins1) \<Rightarrow> (Inl err, w, ins1)
      | (Inr l1, ins1) \<Rightarrow>
          let usr = (if strip l1 = [] then DEFAULT_USER else strip l1)
          in (case prompt ins1 of
                (Inl err, ins2) \<Rightarrow> (Inl err, w, ins2)
              | (Inr l2, ins2) \<Rightarrow>
                  (case (if strip l2 = [] then Inr 22 else py_int (strip l2)) of
                     Inl err \<Rightarrow> (Inl err, w, ins2)
                   | Inr prt \<Rightarrow> add_host_store e hn alias usr prt w ins2)))"

definition add_host_probe ::
  "env \<Rightarrow> string \<Rightarrow> string \<Rightarrow> world \<Rightarrow> input list \<Rightarrow> (error + unit) \<times> world \<times> input list" where
  "add_host_probe e hn alias w ins =
     (if ping e hn then add_host_ask e hn alias w ins
      else
        (let w1 = emit (Stderr (hn @ '' can'' @ [CHR 0x27] @
                    ''t be reached, do want to continue anyway? [Y/n] '')) w
         in case yes ins of
              (Inl err, ins') \<Rightarrow> (Inl err, w1, ins')
            | (Inr ok, ins') \<Rightarrow>
                if \<not> ok then (Inr (), stderr ''... aborting'' w1, ins')
                else add_host_ask e hn alias w1 ins'))"

definition add_host :: "env \<Rightarrow> world \<Rightarrow> input list \<Rightarrow> (error + unit) \<times> world \<times> input list" where
  "add_host e w ins =
     (case prompt ins of
        (Inl err, ins1) \<Rightarrow> (Inl err, w, ins1)
      | (Inr l1, ins1) \<Rightarrow>
          let hn = lower (strip l1)
          in (case split_once CHR ''.'' hn of
                [d, _] \<Rightarrow>
                  (case prompt ins1 of
                     (Inl err, ins2) \<Rightarrow> (Inl err, w, ins2)
                   | (Inr l2, ins2) \<Rightarrow>
                       add_host_probe e hn (if l2 = [] then d else l2) w ins2)
              | _ \<Rightarrow> (Inl ValueError, w, ins1)))"

subsection \<open>\<open>configure\<close>\<close>

definition configure :: "env \<Rightarrow> string list \<Rightarrow> world \<Rightarrow> (error + unit) \<times> world" where
  "configure e cmd w =
     (case cmd of
        [] \<Rightarrow> (Inl IndexError, w)
      | c0 # _ \<Rightarrow>
          if c0 = ''show''
          then
            (let w2 = fold print
                        [''Configured values for this script:'',
                         ''  DEFAULT-USER : '' @ DEFAULT_USER] w
             in case py_str DEFAULT_PORT of
                  Inl err \<Rightarrow> (Inl err, w2)
                | Inr p \<Rightarrow>
                    (Inr (),
                     fold print
                       [''  DEFAULT-PORT : '' @ p,
                        ''  CONFIG-FILE  : '' @ CONFIG_FILE e,
                        ''  SSH-KEY-DIR  : '' @ SSH_KEY_DIR e] w2))
          else if c0 = ''set'' \<and> length cmd = 3 then (Inr (), w)
          else (Inr (),
                stderr (''Invalid cmd for '' @ [CHR 0x27] @ ''configure: '' @
                        join_chr CHR '' '' cmd) w))"

subsection \<open>The main loop\<close>

definition help_text :: "(string \<times> string) list" where
  "help_text =
     [(''ssh <alias>'', ''Connect to a ssh host by it'' @ [CHR 0x27] @ ''s alias.''),
      (''remove <alias>'', ''Remove an ssh host from the config.''),
      (''add'', ''Run wizard to add a new ssh host.''),
      (''list'', ''List all ssh hosts.''),
      (''help'', ''Print this help.''),
      (''exit'', ''Exit the shell.''),
      (''clear'', ''Clears the screen.''),
      (''configure [show | set ..]'', ''Show and change the default values of the wizard.'')]"

text \<open>
  The markup of the unknown-command message, with the line as typed inside it, and the
  message as it is printed.
\<close>

definition unknown_markup :: "string \<Rightarrow> string" where
  "unknown_markup text =
     ''Unknown Command: '' @ text @ [NL] @ ''Enter <b>help</b> for a list of all commands.''"

definition unknown_command :: "string \<Rightarrow> event" where
  "unknown_command text = StdoutHTML (unknown_markup text @ [NL])"

text \<open>
  One iteration ends in one of three ways: the loop goes on, the program ends (with its
  exit status), or an exception nothing catches ends it.
\<close>

datatype outcome = Continue world | Terminated int world | Crashed error world

definition dispatch :: "env \<Rightarrow> world \<Rightarrow> string \<Rightarrow> outcome" where
  "dispatch e w text =
     (if prefix ''ssh'' text then
        (case ssh_proc e (split_chr CHR '' '' text) of
           Completed out err \<Rightarrow>
             Continue ((if err \<noteq> [] then stderr err else id)
                         ((if out \<noteq> [] then print out else id) w))
         | Interrupted \<Rightarrow> Continue (stderr '' Keyboard Interrupt!'' w)
         | SpawnFailed \<Rightarrow> Crashed OSError w)
      else if prefix ''remove'' text then Continue w
      else if prefix ''add'' text then Continue w
      else if prefix ''list'' text then
        (case list_config w of
           (Inl err, w') \<Rightarrow> Crashed err w'
         | (Inr _, w') \<Rightarrow> Continue w')
      else if prefix ''help'' text then
        (case py_max (map (\<lambda>(cmd, _). length cmd) help_text) of
           Inl err \<Rightarrow> Crashed err w
         | Inr width \<Rightarrow>
             Continue (fold (\<lambda>(cmd, d). print (ljust cmd width CHR '' '' @ '' : '' @ d))
                        help_text w))
      else if prefix ''exit'' text then Terminated 0 w
      else if prefix ''configure'' text then
        (case configure e (tl (split_chr CHR '' '' text)) w of
           (Inl err, w') \<Rightarrow> Crashed err w'
         | (Inr _, w') \<Rightarrow> Continue w')
      else if prefix ''clear'' text then Continue (emit ClearScreen w)
      else if html_ok e (unknown_markup text) then Continue (emit (unknown_command text) w)
      else Crashed ExpatError w)"

text \<open>
  One iteration of the loop: the host list is re-read (for the completer), one input is
  taken, and a line is dispatched. The markup of the interrupt message is a constant,
  well-formed text, which the formatting library accepts.
\<close>

definition step :: "env \<Rightarrow> world \<Rightarrow> input \<Rightarrow> outcome" where
  "step e w inp =
     (case file_to_dataclass (config w) of
        Inl err \<Rightarrow> Crashed err w
      | Inr hosts \<Rightarrow>
          (case inp of
             CtrlC \<Rightarrow>
               Continue (emit (StderrHTML
                 (''Enter <b>exit</b> to exit the shell or press <b>CTRL-D</b>.'' @ [NL])) w)
           | CtrlD \<Rightarrow> Terminated (- 1) (stderr ''... exiting'' w)
           | Line text \<Rightarrow> dispatch e w text))"

fun run :: "env \<Rightarrow> world \<Rightarrow> input list \<Rightarrow> outcome" where
  "run e w [] = step e w CtrlD"
| "run e w (i # ins) =
     (case step e w i of
        Continue w' \<Rightarrow> run e w' ins
      | Terminated code w' \<Rightarrow> Terminated code w'
      | Crashed err w' \<Rightarrow> Crashed err w')"

section \<open>The vocabulary of the claims\<close>

text \<open>The number a string of decimal digits stands for.\<close>

definition dec_value :: "string \<Rightarrow> nat" where
  "dec_value p = foldl (\<lambda>a c. 10 * a + digit_val c) 0 p"

text \<open>A run of one or more blanks, and a non-space token: non-empty, no whitespace in it.\<close>

definition spaces :: "string \<Rightarrow> bool" where
  "spaces sp \<longleftrightarrow> sp \<noteq> [] \<and> list_all (\<lambda>c. c = CHR '' '') sp"

definition token :: "string \<Rightarrow> bool" where
  "token w \<longleftrightarrow> w \<noteq> [] \<and> list_all (\<lambda>c. \<not> is_space c) w"

text \<open>
  \<open>block_body b r\<close>: the text \<open>b\<close> is the five lines of a block, from \<open>Host\<close> to the
  end of the key file, and \<open>r\<close> is the record it stands for. A block is a body with or
  without the newline after it.
\<close>

definition block_body :: "string \<Rightarrow> SSHConfig \<Rightarrow> bool" where
  "block_body b r \<longleftrightarrow>
     (\<exists>sp1 sp2 sp3 sp4 sp5 p.
        b = ''Host'' @ sp1 @ ID r @
            (NL # TAB # ''Hostname'') @ sp2 @ hostname r @
            (NL # TAB # ''User'') @ sp3 @ user r @
            (NL # TAB # ''Port'') @ sp4 @ p @
            (NL # TAB # ''IdentityFile'') @ sp5 @ key_file r
        \<and> spaces sp1 \<and> spaces sp2 \<and> spaces sp3 \<and> spaces sp4 \<and> spaces sp5
        \<and> ID r \<noteq> [] \<and> NL \<notin> set (ID r)
        \<and> token (hostname r) \<and> token (user r) \<and> token (key_file r)
        \<and> p \<noteq> [] \<and> list_all is_digit p \<and> port r = int (dec_value p))"

definition is_block :: "string \<Rightarrow> SSHConfig \<Rightarrow> bool" where
  "is_block m r \<longleftrightarrow> (\<exists>b. block_body b r \<and> (m = b \<or> m = b @ [NL]))"

text \<open>
  \<open>taken m r rest\<close>: in front of \<open>rest\<close>, \<open>m\<close> is the block the pattern takes. The run
  of blanks after \<open>Host\<close> is as long as it can be (the id does not begin with a blank,
  unless it is the one blank the run had to give back), the key file runs up to the
  next whitespace or the end of the text, and a newline that follows it is part of the
  block.
\<close>

definition taken :: "string \<Rightarrow> SSHConfig \<Rightarrow> string \<Rightarrow> bool" where
  "taken m r rest \<longleftrightarrow>
     (hd (ID r) \<noteq> CHR '' '' \<or> ID r = '' '') \<and>
     (\<exists>b. block_body b r \<and>
          (m = b @ [NL] \<or>
           (m = b \<and> (rest = [] \<or> (is_space (hd rest) \<and> hd rest \<noteq> NL)))))"

text \<open>
  \<open>scan content rs\<close>: the records \<open>rs\<close> are those of the blocks taken from the content,
  from left to right and without overlap, and no block starts at a character passed over.
\<close>

inductive scan :: "string \<Rightarrow> SSHConfig list \<Rightarrow> bool" where
  scan_end: "scan [] []"
| scan_skip: "\<forall>m r rest. c # s = m @ rest \<longrightarrow> \<not> is_block m r \<Longrightarrow> scan s rs \<Longrightarrow> scan (c # s) rs"
| scan_block: "taken m r rest \<Longrightarrow> scan rest rs \<Longrightarrow> scan (m @ rest) (r # rs)"

text \<open>A match whose port group has more digits than Python converts.\<close>

definition long_port :: "groups \<Rightarrow> bool" where
  "long_port g = (case group g ''port'' of Inl e \<Rightarrow> False | Inr p \<Rightarrow> MAX_STR_DIGITS < length p)"

text \<open>
  A well-formed record: four non-space tokens, and a port that is written in decimal
  digits, at most as many as Python writes. Every TCP port (1-65535) is such a port.
\<close>

definition well_formed :: "SSHConfig \<Rightarrow> bool" where
  "well_formed r \<longleftrightarrow>
     token (ID r) \<and> token (hostname r) \<and> token (user r) \<and> token (key_file r) \<and>
     0 \<le> port r \<and> port r < 10 ^ MAX_STR_DIGITS"

text \<open>
  The text of the block of a record with a non-negative port, and the named groups of
  the match on it.
\<close>

definition block_text :: "SSHConfig \<Rightarrow> string" where
  "block_text r =
     ''Host '' @ ID r @ [NL] @
     TAB # ''Hostname '' @ hostname r @ [NL] @
     TAB # ''User '' @ user r @ [NL] @
     TAB # ''Port '' @ dec (nat (port r)) @ [NL] @
     TAB # ''IdentityFile '' @ key_file r @ [NL, NL]"

definition groups_of :: "SSHConfig \<Rightarrow> groups" where
  "groups_of r = [(''ID'', ID r), (''hostname'', hostname r), (''user'', user r),
                  (''port'', dec (nat (port r))), (''key_file'', key_file r)]"

subsection \<open>The command set and the first token of a line\<close>

text \<open>
  The command names, in the order of the dispatch, and the first whitespace-delimited
  token of a line as the specification words it: leading whitespace skipped, then the
  characters up to the next whitespace (empty when the line holds no token).
\<close>

definition commands :: "string list" where
  "commands = [''ssh'', ''remove'', ''add'', ''list'', ''help'', ''exit'', ''configure'', ''clear'']"

definition first_token :: "string \<Rightarrow> string" where
  "first_token line = takeWhile (\<lambda>c. \<not> is_space c) (dropWhile is_space line)"

subsection \<open>Example records, files and states\<close>

definition web :: SSHConfig where
  "web = \<lparr>ID = ''web'', hostname = ''web.example.com'', user = ''admin'', port = 22,
           key_file = ''/k/web''\<rparr>"

definition db :: SSHConfig where
  "db = \<lparr>ID = ''db'', hostname = ''10.0.0.5'', user = ''root'', port = 2222,
          key_file = ''/k/db''\<rparr>"

definition old_a :: SSHConfig where
  "old_a = \<lparr>ID = ''old'', hostname = ''a.com'', user = ''root'', port = 2222,
             key_file = ''/k/old''\<rparr>"

definition new_a :: SSHConfig where
  "new_a = \<lparr>ID = ''a'', hostname = ''a.com'', user = ''admin'', port = 22,
             key_file = ''/home/u/.ssh/keys/a_com''\<rparr>"

definition port_zero_file :: string where
  "port_zero_file =
     ''Host a'' @ [NL, TAB] @ ''Hostname a.com'' @ [NL, TAB] @ ''User admin'' @ [NL, TAB] @
     ''Port 0'' @ [NL, TAB] @ ''IdentityFile /k/a'' @ [NL] @
     ''Host b'' @ [NL, TAB] @ ''Hostname b.com'' @ [NL, TAB] @ ''User admin'' @ [NL, TAB] @
     ''Port 70000'' @ [NL, TAB] @ ''IdentityFile /k/b'' @ [NL]"

definition bad_port_file :: string where
  "bad_port_file =
     ''Host a'' @ [NL, TAB] @ ''Hostname a.com'' @ [NL, TAB] @ ''User admin'' @ [NL, TAB] @
     ''Port abc'' @ [NL, TAB] @ ''IdentityFile /k/a'' @ [NL]"

definition messy_file :: string where
  "messy_file =
     ''# my hosts'' @ [NL] @
     ''Host broken'' @ [NL, TAB] @ ''Hostname broken.example.com'' @ [NL, TAB] @
     ''Port 22'' @ [NL, TAB] @ ''IdentityFile /k/broken'' @ [NL, NL] @
     ''Host web'' @ [NL, TAB] @ ''Hostname web.example.com'' @ [NL, TAB] @ ''User admin'' @ [NL, TAB] @
     ''Port 22'' @ [NL, TAB] @ ''IdentityFile /k/web'' @ [NL, NL] @
     ''Host spaces'' @ [NL] @ ''    Hostname s.example.com'' @ [NL] @ ''    User admin'' @ [NL] @
     ''    Port 22'' @ [NL] @ ''    IdentityFile /k/s'' @ [NL]"

definition long_port_file :: string where
  "long_port_file =
     ''Host a'' @ [NL, TAB] @ ''Hostname a.com'' @ [NL, TAB] @ ''User admin'' @ [NL, TAB] @
     ''Port '' @ replicate 4301 CHR ''1'' @ [NL, TAB] @ ''IdentityFile /k/a'' @ [NL]"

text \<open>
  An environment for the examples. Its formatter refuses every markup with an ampersand
  in it and accepts the others; the examples use it on lines without markup characters.
\<close>

definition env0 :: env where
  "env0 = \<lparr>home = ''/home/u'', ssh_proc = (\<lambda>cmd. Completed [] []), ping = (\<lambda>h. True),
           keygen = (\<lambda>p. Inr ''ssh-ed25519 AAAA''),
           html_ok = (\<lambda>m. CHR ''&'' \<notin> set m)\<rparr>"

definition web_world :: world where
  "web_world = \<lparr>config = Some (snd (dataclass_to_file [web])), outputs = []\<rparr>"

definition empty_world :: world where
  "empty_world = \<lparr>config = Some [], outputs = []\<rparr>"

definition a_world :: world where
  "a_world = \<lparr>config = Some (snd (dataclass_to_file [old_a])), outputs = []\<rparr>"

section \<open>Properties of the parser and the serializer\<close>

lemma digit_not_space: "is_digit c \<Longrightarrow> \<not> is_space c"
  by (auto simp: is_digit_def is_space_def Let_def)

lemma digit_not_sign: "is_digit c \<Longrightarrow> c \<noteq> CHR ''-'' \<and> c \<noteq> CHR ''+''"
  by (auto simp: is_digit_def)

lemma dropWhile_hd_id: "s = [] \<or> \<not> P (hd s) \<Longrightarrow> dropWhile P s = s"
  by (cases s) auto

lemma strip_id:
  assumes "s \<noteq> []" "\<not> is_space (hd s)" "\<not> is_space (last s)"
  shows "strip s = s"
proof -
  have "dropWhile is_space s = s" using assms by (simp add: dropWhile_hd_id)
  moreover have "dropWhile is_space (rev s) = rev s"
    using assms by (intro dropWhile_hd_id) (simp add: hd_rev)
  ultimately show ?thesis by (simp add: strip_def)
qed

lemma int_digits_all:
  "list_all is_digit p \<Longrightarrow> int_digits acc p = Inr (foldl (\<lambda>a c. 10 * a + digit_val c) acc p)"
  by (induction p arbitrary: acc) auto

lemma filter_digits: "list_all is_digit p \<Longrightarrow> filter is_digit p = p"
  by (induction p) auto

lemma py_int_digits_cases:
  assumes "p \<noteq> []" "list_all is_digit p"
  shows "py_int p = (if length p \<le> MAX_STR_DIGITS then Inr (int (dec_value p)) else Inl ValueError)"
proof -
  from assms obtain c cs where p: "p = c # cs" by (cases p) auto
  with assms have c: "is_digit c" by simp
  have "is_digit (last p)" using assms by (simp add: list_all_iff)
  with assms c p have "strip p = p"
    by (intro strip_id) (auto dest: digit_not_space)
  moreover have "int_unsigned p =
      (if length p \<le> MAX_STR_DIGITS then Inr (dec_value p) else Inl ValueError)"
    using assms(2) c filter_digits[OF assms(2)] int_digits_all[OF assms(2), of 0]
    unfolding p int_unsigned_def dec_value_def by (simp del: int_digits.simps)
  ultimately show ?thesis
    using c p digit_not_sign[OF c] by (simp add: py_int_def)
qed

lemma py_int_digits:
  assumes "p \<noteq> []" "list_all is_digit p" "length p \<le> MAX_STR_DIGITS"
  shows "py_int p = Inr (int (dec_value p))"
  using py_int_digits_cases[OF assms(1,2)] assms(3) by simp

lemma py_int_long:
  assumes "p \<noteq> []" "list_all is_digit p" "MAX_STR_DIGITS < length p"
  shows "py_int p = Inl ValueError"
  using py_int_digits_cases[OF assms(1,2)] assms(3) by simp

lemma digit_chr_digit: "d < 10 \<Longrightarrow> is_digit (digit_chr d)"
  by (simp add: is_digit_def digit_chr_def)

lemma digit_val_chr: "d < 10 \<Longrightarrow> digit_val (digit_chr d) = d"
  by (simp add: digit_val_def digit_chr_def)

lemma dec_digits: "list_all is_digit (dec n)"
proof (induction n rule: dec.induct)
  case (1 n)
  show ?case
  proof (cases "n < 10")
    case True
    then show ?thesis by (subst dec.simps) (simp add: digit_chr_digit)
  next
    case False
    with 1 show ?thesis by (subst dec.simps) (simp add: digit_chr_digit)
  qed
qed

lemma dec_nonempty: "dec n \<noteq> []"
  by (subst dec.simps) simp

lemma dec_value_dec: "dec_value (dec n) = n"
proof (induction n rule: dec.induct)
  case (1 n)
  show ?case
  proof (cases "n < 10")
    case True
    then show ?thesis by (subst dec.simps) (simp add: dec_value_def digit_val_chr)
  next
    case False
    with 1 have "dec_value (dec (n div 10)) = n div 10" by simp
    with False show ?thesis
      by (subst dec.simps) (simp add: dec_value_def digit_val_chr)
  qed
qed

lemma dec_length: "length (dec n) = (if n < 10 then 1 else Suc (length (dec (n div 10))))"
  by (subst dec.simps) simp

lemma dec_below_power: "n < 10 ^ length (dec n)"
proof (induction n rule: dec.induct)
  case (1 n)
  show ?case
  proof (cases "n < 10")
    case True
    then show ?thesis by (simp add: dec_length)
  next
    case False
    with 1 have "n div 10 < 10 ^ length (dec (n div 10))" by simp
    then have "n < 10 * 10 ^ length (dec (n div 10))" by simp
    with False show ?thesis by (simp add: dec_length)
  qed
qed

lemma dec_length_le: "n < 10 ^ k \<Longrightarrow> 0 < k \<Longrightarrow> length (dec n) \<le> k"
proof (induction n arbitrary: k rule: dec.induct)
  case (1 n)
  show ?case
  proof (cases "n < 10")
    case True
    with "1.prems" show ?thesis by (simp add: dec_length)
  next
    case False
    from "1.prems" obtain j where k: "k = Suc j" by (cases k) auto
    from False "1.prems" k have "0 < j" by (cases j) auto
    moreover from "1.prems" k have "n div 10 < 10 ^ j" by simp
    ultimately have "length (dec (n div 10)) \<le> j" using "1.IH"[OF False] by simp
    with False k show ?thesis by (simp add: dec_length)
  qed
qed

lemma dec_length_limit: "length (dec n) \<le> MAX_STR_DIGITS \<longleftrightarrow> n < 10 ^ MAX_STR_DIGITS"
proof
  assume "length (dec n) \<le> MAX_STR_DIGITS"
  then have "(10::nat) ^ length (dec n) \<le> 10 ^ MAX_STR_DIGITS"
    by (intro power_increasing) simp_all
  with dec_below_power[of n] show "n < 10 ^ MAX_STR_DIGITS" by (rule less_le_trans)
next
  assume "n < 10 ^ MAX_STR_DIGITS"
  then show "length (dec n) \<le> MAX_STR_DIGITS"
    by (rule dec_length_le) (simp add: MAX_STR_DIGITS_def)
qed

lemma dec_value_snoc: "dec_value (p @ [c]) = 10 * dec_value p + digit_val c"
  by (simp add: dec_value_def)

lemma dec_value_bound: "list_all is_digit p \<Longrightarrow> dec_value p < 10 ^ length p"
proof (induction p rule: rev_induct)
  case Nil
  then show ?case by (simp add: dec_value_def)
next
  case (snoc c p)
  then have b: "dec_value p < 10 ^ length p" and c: "is_digit c" by simp_all
  from b have "dec_value p + 1 \<le> 10 ^ length p" by simp
  moreover from c have "digit_val c \<le> 9"
    unfolding is_digit_def digit_val_def Let_def by linarith
  ultimately have "dec_value p + 1 \<le> 10 ^ length p" and "digit_val c \<le> 9" by simp_all
  then have "10 * dec_value p + digit_val c < 10 * 10 ^ length p" by linarith
  then show ?case by (simp add: dec_value_snoc)
qed

lemma py_str_nonneg:
  assumes "0 \<le> n"
  shows "py_str n = (if n < 10 ^ MAX_STR_DIGITS then Inr (dec (nat n)) else Inl ValueError)"
proof -
  have "nat n < 10 ^ MAX_STR_DIGITS \<longleftrightarrow> n < 10 ^ MAX_STR_DIGITS"
    using assms by (metis nat_less_iff of_nat_numeral of_nat_power)
  with assms dec_length_limit[of "nat n"] show ?thesis
    by (auto simp: py_str_def Let_def)
qed

lemma py_int_dec:
  assumes "n < 10 ^ MAX_STR_DIGITS"
  shows "py_int (dec n) = Inr (int n)"
  using assms dec_length_limit[of n]
  by (simp add: py_int_digits dec_nonempty dec_digits dec_value_dec)

lemma port_within_limit: "n \<le> 65535 \<Longrightarrow> n < (10::int) ^ MAX_STR_DIGITS"
proof -
  assume "n \<le> 65535"
  then have "n < (10::int) ^ 5" by simp
  also have "(10::int) ^ 5 \<le> 10 ^ MAX_STR_DIGITS"
    by (rule power_increasing) (simp_all add: MAX_STR_DIGITS_def)
  finally show ?thesis .
qed

inductive_cases sem_NilE: "sem [] s g rest"
inductive_cases sem_LitE: "sem (Lit l # is) s g rest"
inductive_cases sem_PlusE: "sem (Plus name cls # is) s g rest"
inductive_cases sem_OptE: "sem (Opt c # is) s g rest"

lemma in_class_simps:
  "list_all (in_class (Chr a)) x = list_all (\<lambda>c. c = a) x"
  "list_all (in_class NonSpace) x = list_all (\<lambda>c. \<not> is_space c) x"
  "list_all (in_class Digit) x = list_all is_digit x"
  "list_all (in_class AnyChr) x = (NL \<notin> set x)"
  by (auto simp: list_all_iff)

lemma sem_fieldD:
  assumes "sem (Lit l # Plus None c # Plus (Some n) d # is) s g rest"
  obtains sp x t g' where "s = l @ sp @ x @ t" "g = (n, x) # g'"
    "sp \<noteq> []" "list_all (in_class c) sp" "x \<noteq> []" "list_all (in_class d) x"
    "sem is t g' rest"
proof -
  from assms obtain t1 where 1: "s = l @ t1" "sem (Plus None c # Plus (Some n) d # is) t1 g rest"
    by (auto elim: sem_LitE)
  from 1(2) obtain sp t2 where 2: "t1 = sp @ t2" "sp \<noteq> []" "list_all (in_class c) sp"
    "sem (Plus (Some n) d # is) t2 g rest"
    by (auto elim: sem_PlusE)
  from 2(4) obtain x t g' where 3: "t2 = x @ t" "x \<noteq> []" "list_all (in_class d) x"
    "g = (n, x) # g'" "sem is t g' rest"
    by (auto elim: sem_PlusE)
  show thesis using 1(1) 2(1,2,3) 3 by (intro that[of sp x t g']) simp_all
qed

lemma sem_Opt_endD:
  assumes "sem [Opt z] e g rest"
  shows "g = [] \<and> (e = rest \<or> e = z # rest)"
  using assms by (auto elim: sem_OptE sem_NilE)

lemma sem_shapeD:
  assumes "sem [Lit l1, Plus None c1, Plus (Some n1) d1,
                Lit l2, Plus None c2, Plus (Some n2) d2,
                Lit l3, Plus None c3, Plus (Some n3) d3,
                Lit l4, Plus None c4, Plus (Some n4) d4,
                Lit l5, Plus None c5, Plus (Some n5) d5, Opt z] s g rest"
  obtains sp1 i sp2 h sp3 u sp4 p sp5 k e where
    "s = l1 @ sp1 @ i @ l2 @ sp2 @ h @ l3 @ sp3 @ u @ l4 @ sp4 @ p @ l5 @ sp5 @ k @ e"
    "g = [(n1, i), (n2, h), (n3, u), (n4, p), (n5, k)]"
    "sp1 \<noteq> []" "list_all (in_class c1) sp1" "sp2 \<noteq> []" "list_all (in_class c2) sp2"
    "sp3 \<noteq> []" "list_all (in_class c3) sp3" "sp4 \<noteq> []" "list_all (in_class c4) sp4"
    "sp5 \<noteq> []" "list_all (in_class c5) sp5"
    "i \<noteq> []" "list_all (in_class d1) i" "h \<noteq> []" "list_all (in_class d2) h"
    "u \<noteq> []" "list_all (in_class d3) u" "p \<noteq> []" "list_all (in_class d4) p"
    "k \<noteq> []" "list_all (in_class d5) k" "e = rest \<or> e = z # rest"
proof -
  from assms obtain sp1 i t1 g1 where 1: "s = l1 @ sp1 @ i @ t1" "g = (n1, i) # g1"
    "sp1 \<noteq> []" "list_all (in_class c1) sp1" "i \<noteq> []" "list_all (in_class d1) i"
    and s1: "sem [Lit l2, Plus None c2, Plus (Some n2) d2,
                Lit l3, Plus None c3, Plus (Some n3) d3,
                Lit l4, Plus None c4, Plus (Some n4) d4,
                Lit l5, Plus None c5, Plus (Some n5) d5, Opt z] t1 g1 rest"
    by (rule sem_fieldD)
  from s1 obtain sp2 h t2 g2 where 2: "t1 = l2 @ sp2 @ h @ t2" "g1 = (n2, h) # g2"
    "sp2 \<noteq> []" "list_all (in_class c2) sp2" "h \<noteq> []" "list_all (in_class d2) h"
    and s2: "sem [Lit l3, Plus None c3, Plus (Some n3) d3,
                Lit l4, Plus None c4, Plus (Some n4) d4,
                Lit l5, Plus None c5, Plus (Some n5) d5, Opt z] t2 g2 rest"
    by (rule sem_fieldD)
  from s2 obtain sp3 u t3 g3 where 3: "t2 = l3 @ sp3 @ u @ t3" "g2 = (n3, u) # g3"
    "sp3 \<noteq> []" "list_all (in_class c3) sp3" "u \<noteq> []" "list_all (in_class d3) u"
    and s3: "sem [Lit l4, Plus None c4, Plus (Some n4) d4,
                Lit l5, Plus None c5, Plus (Some n5) d5, Opt z] t3 g3 rest"
    by (rule sem_fieldD)
  from s3 obtain sp4 p t4 g4 where 4: "t3 = l4 @ sp4 @ p @ t4" "g3 = (n4, p) # g4"
    "sp4 \<noteq> []" "list_all (in_class c4) sp4" "p \<noteq> []" "list_all (in_class d4) p"
    and s4: "sem [Lit l5, Plus None c5, Plus (Some n5) d5, Opt z] t4 g4 rest"
    by (rule sem_fieldD)
  from s4 obtain sp5 k e g5 where 5: "t4 = l5 @ sp5 @ k @ e" "g4 = (n5, k) # g5"
    "sp5 \<noteq> []" "list_all (in_class c5) sp5" "k \<noteq> []" "list_all (in_class d5) k"
    and s5: "sem [Opt z] e g5 rest"
    by (rule sem_fieldD)
  from s5 have 6: "g5 = []" "e = rest \<or> e = z # rest"
    by (simp_all add: sem_Opt_endD)
  have s: "s = l1 @ sp1 @ i @ l2 @ sp2 @ h @ l3 @ sp3 @ u @ l4 @ sp4 @ p @ l5 @ sp5 @ k @ e"
    unfolding 1(1) 2(1) 3(1) 4(1) 5(1) ..
  have g: "g = [(n1, i), (n2, h), (n3, u), (n4, p), (n5, k)]"
    unfolding 1(2) 2(2) 3(2) 4(2) 5(2) 6(1) ..
  show thesis
    by (rule that[OF s g 1(3,4) 2(3,4) 3(3,4) 4(3,4) 5(3,4) 1(5,6) 2(5,6) 3(5,6) 4(5,6) 5(5,6) 6(2)])
qed

lemma sem_blockD:
  assumes "sem SSH_KEY_FILE_REGEX s g rest"
  obtains sp1 i sp2 h sp3 u sp4 p sp5 k e where
    "s = ''Host'' @ sp1 @ i @
            (NL # TAB # ''Hostname'') @ sp2 @ h @
            (NL # TAB # ''User'') @ sp3 @ u @
            (NL # TAB # ''Port'') @ sp4 @ p @
            (NL # TAB # ''IdentityFile'') @ sp5 @ k @ e"
    "g = [(''ID'', i), (''hostname'', h), (''user'', u), (''port'', p), (''key_file'', k)]"
    "spaces sp1" "spaces sp2" "spaces sp3" "spaces sp4" "spaces sp5"
    "i \<noteq> []" "NL \<notin> set i" "token h" "token u" "token k"
    "p \<noteq> []" "list_all is_digit p" "e = rest \<or> e = NL # rest"
proof -
  from assms[unfolded SSH_KEY_FILE_REGEX_def] show thesis
    by (rule sem_shapeD)
       (rule that, assumption, assumption, simp_all add: in_class_simps spaces_def token_def)
qed

lemma sem_Plus_None:
  "x \<noteq> [] \<Longrightarrow> list_all (in_class cls) x \<Longrightarrow> sem is s g rest
   \<Longrightarrow> sem (Plus None cls # is) (x @ s) g rest"
  using sem_Plus[of x cls "is" s g rest None] by simp

lemma sem_Plus_Some:
  "x \<noteq> [] \<Longrightarrow> list_all (in_class cls) x \<Longrightarrow> sem is s g rest
   \<Longrightarrow> sem (Plus (Some n) cls # is) (x @ s) ((n, x) # g) rest"
  using sem_Plus[of x cls "is" s g rest "Some n"] by simp

lemma sem_Opt_end: "e = rest \<or> e = c # rest \<Longrightarrow> sem [Opt c] e [] rest"
  by (auto intro: sem.intros)

lemma block_sem:
  assumes "spaces sp1" "spaces sp2" "spaces sp3" "spaces sp4" "spaces sp5"
    and "i \<noteq> []" "NL \<notin> set i" "token h" "token u" "token k"
    and "p \<noteq> []" "list_all is_digit p" "e = rest \<or> e = NL # rest"
  shows "sem SSH_KEY_FILE_REGEX
          (''Host'' @ sp1 @ i @
            (NL # TAB # ''Hostname'') @ sp2 @ h @
            (NL # TAB # ''User'') @ sp3 @ u @
            (NL # TAB # ''Port'') @ sp4 @ p @
            (NL # TAB # ''IdentityFile'') @ sp5 @ k @ e)
          [(''ID'', i), (''hostname'', h), (''user'', u), (''port'', p), (''key_file'', k)] rest"
  unfolding SSH_KEY_FILE_REGEX_def
  using assms unfolding spaces_def token_def in_class_simps[symmetric]
  by (intro sem_Lit sem_Plus_None sem_Plus_Some sem_Opt_end) blast+

lemma group_simps:
  "group ((n, v) # g) n' = (if n = n' then Inr v else group g n')"
  "group [] n' = Inl IndexError"
  by (simp_all add: group_def)

lemma config_of_block:
  assumes "p \<noteq> []" "list_all is_digit p"
  shows "config_of_match [(''ID'', i), (''hostname'', h), (''user'', u), (''port'', p), (''key_file'', k)]
         = (if length p \<le> MAX_STR_DIGITS
            then Inr \<lparr>ID = i, hostname = h, user = u, port = int (dec_value p), key_file = k\<rparr>
            else Inl ValueError)"
  using py_int_digits_cases[OF assms]
  by (simp add: config_of_match_def group_simps bind_err_def)

lemma finditer_Nil: "finditer [] = []"
  by (subst finditer.simps) (simp add: SSH_KEY_FILE_REGEX_def)

lemma finditer_match:
  "match_here SSH_KEY_FILE_REGEX s = Some (g, rest) \<Longrightarrow> finditer s = g # finditer rest"
  by (subst finditer.simps) simp

lemma finditer_skip:
  "match_here SSH_KEY_FILE_REGEX (c # s) = None \<Longrightarrow> finditer (c # s) = finditer s"
  by (subst finditer.simps) simp

lemma is_block_sem:
  assumes "is_block m r"
  shows "\<exists>g. sem SSH_KEY_FILE_REGEX (m @ rest) g rest"
proof -
  from assms obtain b where b: "block_body b r" and m: "m = b \<or> m = b @ [NL]"
    unfolding is_block_def by blast
  from b obtain sp1 sp2 sp3 sp4 sp5 p where
    b_eq: "b = ''Host'' @ sp1 @ ID r @
            (NL # TAB # ''Hostname'') @ sp2 @ hostname r @
            (NL # TAB # ''User'') @ sp3 @ user r @
            (NL # TAB # ''Port'') @ sp4 @ p @
            (NL # TAB # ''IdentityFile'') @ sp5 @ key_file r"
    and c: "spaces sp1" "spaces sp2" "spaces sp3" "spaces sp4" "spaces sp5"
      "ID r \<noteq> []" "NL \<notin> set (ID r)" "token (hostname r)" "token (user r)" "token (key_file r)"
      "p \<noteq> []" "list_all is_digit p"
    unfolding block_body_def by blast
  define e where "e = (if m = b then rest else NL # rest)"
  have e: "e = rest \<or> e = NL # rest" by (simp add: e_def)
  have me: "m @ rest = b @ e" using m by (auto simp: e_def)
  have "sem SSH_KEY_FILE_REGEX
          (''Host'' @ sp1 @ ID r @
            (NL # TAB # ''Hostname'') @ sp2 @ hostname r @
            (NL # TAB # ''User'') @ sp3 @ user r @
            (NL # TAB # ''Port'') @ sp4 @ p @
            (NL # TAB # ''IdentityFile'') @ sp5 @ key_file r @ e)
          [(''ID'', ID r), (''hostname'', hostname r), (''user'', user r), (''port'', p),
           (''key_file'', key_file r)] rest"
    using c e by (rule block_sem)
  then show ?thesis unfolding me b_eq append_assoc by (rule exI)
qed

subsection \<open>The match the pattern takes\<close>

lemma backtrack_max:
  "backtrack cont s n = Some r \<Longrightarrow>
   \<exists>k. 0 < k \<and> k \<le> n \<and> cont (take k s) (drop k s) = Some r \<and>
       (\<forall>j. k < j \<and> j \<le> n \<longrightarrow> cont (take j s) (drop j s) = None)"
proof (induction n)
  case 0
  then show ?case by simp
next
  case (Suc n)
  show ?case
  proof (cases "cont (take (Suc n) s) (drop (Suc n) s)")
    case None
    with Suc.prems have "backtrack cont s n = Some r" by simp
    from Suc.IH[OF this] obtain k where k: "0 < k" "k \<le> n" "cont (take k s) (drop k s) = Some r"
      "\<forall>j. k < j \<and> j \<le> n \<longrightarrow> cont (take j s) (drop j s) = None"
      by blast
    have "\<forall>j. k < j \<and> j \<le> Suc n \<longrightarrow> cont (take j s) (drop j s) = None"
    proof (intro allI impI)
      fix j
      assume j: "k < j \<and> j \<le> Suc n"
      show "cont (take j s) (drop j s) = None"
      proof (cases "j = Suc n")
        case True
        with None show ?thesis by simp
      next
        case False
        with j k(4) show ?thesis by simp
      qed
    qed
    with k(1,2,3) show ?thesis by (intro exI[of _ k]) simp
  next
    case (Some a)
    with Suc.prems have "a = r" by simp
    with Some show ?thesis by (intro exI[of _ "Suc n"]) auto
  qed
qed

lemma match_Opt_end:
  "match_here [Opt c] e = Some ([], if e \<noteq> [] \<and> hd e = c then tl e else e)"
  by (cases e) simp_all

lemma add_group_snoc: "add_group name x (g @ [z]) = add_group name x g @ [z]"
  by (cases name) simp_all

lemma match_here_tail:
  assumes "match_here (is @ [Plus (Some nm) cls, Opt c]) s = Some (g, rest)"
  shows "\<exists>g1 x e. sem is s g1 (x @ e) \<and> g = g1 @ [(nm, x)] \<and> x \<noteq> [] \<and>
           list_all (in_class cls) x \<and> (e = [] \<or> \<not> in_class cls (hd e)) \<and>
           rest = (if e \<noteq> [] \<and> hd e = c then tl e else e)"
  using assms
proof (induction "is" arbitrary: s g rest)
  case Nil
  let ?P = "in_class cls"
  let ?n = "length (takeWhile ?P s)"
  let ?x = "takeWhile ?P s"
  let ?e = "dropWhile ?P s"
  let ?cont = "\<lambda>x r. map_option (\<lambda>(g, r). (add_group (Some nm) x g, r)) (match_here [Opt c] r)"
  from Nil have b: "backtrack ?cont s ?n = Some (g, rest)" by simp
  then have pos: "0 < ?n" by (cases ?n) simp_all
  have tk: "take ?n s = ?x" "drop ?n s = ?e"
    by (rule takeWhile_eq_take[symmetric], rule dropWhile_eq_drop[symmetric])
  have "?cont (take ?n s) (drop ?n s) =
        Some ([(nm, ?x)], if ?e \<noteq> [] \<and> hd ?e = c then tl ?e else ?e)"
    unfolding tk match_Opt_end by simp
  with pos have "backtrack ?cont s ?n =
        Some ([(nm, ?x)], if ?e \<noteq> [] \<and> hd ?e = c then tl ?e else ?e)"
    by (rule backtrack_first)
  with b have g: "g = [] @ [(nm, ?x)]" and r: "rest = (if ?e \<noteq> [] \<and> hd ?e = c then tl ?e else ?e)"
    by simp_all
  have "sem [] s [] (?x @ ?e)" by (simp add: sem_Nil)
  moreover have "?x \<noteq> []" using pos by auto
  moreover have "list_all ?P ?x" by (auto simp: list_all_iff dest: set_takeWhileD)
  moreover have "?e = [] \<or> \<not> ?P (hd ?e)" using hd_dropWhile[of ?P s] by blast
  ultimately show ?case using g r by blast
next
  case (Cons i "is")
  let ?T = "[Plus (Some nm) cls, Opt c]"
  show ?case
  proof (cases i)
    case (Lit l)
    with Cons.prems have p: "prefix l s"
      and m: "match_here (is @ ?T) (drop (length l) s) = Some (g, rest)"
      by (auto split: if_splits)
    from p obtain t where s: "s = l @ t" by (auto simp: prefix_def)
    from m s have "match_here (is @ ?T) t = Some (g, rest)" by simp
    from Cons.IH[OF this] obtain g1 x e where
      h: "sem is t g1 (x @ e)" "g = g1 @ [(nm, x)]" "x \<noteq> []" "list_all (in_class cls) x"
        "e = [] \<or> \<not> in_class cls (hd e)" "rest = (if e \<noteq> [] \<and> hd e = c then tl e else e)"
      by blast
    from h(1) have "sem (Lit l # is) (l @ t) g1 (x @ e)" by (rule sem_Lit)
    with h(2-6) show ?thesis unfolding Lit s by blast
  next
    case (Plus name cls')
    let ?n = "length (takeWhile (in_class cls') s)"
    from Cons.prems Plus obtain k where k: "0 < k" "k \<le> ?n"
      and c: "map_option (\<lambda>(g, r). (add_group name (take k s) g, r))
                (match_here (is @ ?T) (drop k s)) = Some (g, rest)"
      by (auto dest: backtrack_sound)
    from c obtain g0 where m: "match_here (is @ ?T) (drop k s) = Some (g0, rest)"
      and g: "g = add_group name (take k s) g0"
      by auto
    from Cons.IH[OF m] obtain g1 x e where
      h: "sem is (drop k s) g1 (x @ e)" "g0 = g1 @ [(nm, x)]" "x \<noteq> []" "list_all (in_class cls) x"
        "e = [] \<or> \<not> in_class cls (hd e)" "rest = (if e \<noteq> [] \<and> hd e = c then tl e else e)"
      by blast
    have "?n \<le> length s" by (rule length_takeWhile_le)
    with k have ne: "take k s \<noteq> []" by auto
    have all: "list_all (in_class cls') (take k s)" using k(2) by (rule take_takeWhile_all)
    have "sem (Plus name cls' # is) (take k s @ drop k s) (add_group name (take k s) g1) (x @ e)"
      using ne all h(1) by (rule sem_Plus)
    then have "sem (i # is) s (add_group name (take k s) g1) (x @ e)"
      unfolding Plus by simp
    moreover have "g = add_group name (take k s) g1 @ [(nm, x)]"
      unfolding g h(2) by (rule add_group_snoc)
    ultimately show ?thesis using h(3-6) by blast
  next
    case (Opt c')
    show ?thesis
    proof (cases "match_here (is @ ?T) s = Some (g, rest)")
      case True
      from Cons.IH[OF True] obtain g1 x e where
        h: "sem is s g1 (x @ e)" "g = g1 @ [(nm, x)]" "x \<noteq> []" "list_all (in_class cls) x"
          "e = [] \<or> \<not> in_class cls (hd e)" "rest = (if e \<noteq> [] \<and> hd e = c then tl e else e)"
        by blast
      from h(1) have "sem (i # is) s g1 (x @ e)" unfolding Opt by (rule sem_Opt_skip)
      with h(2-6) show ?thesis by blast
    next
      case False
      with Cons.prems Opt obtain s' where s: "s = c' # s'"
        and m: "match_here (is @ ?T) s' = Some (g, rest)"
        by (auto split: list.splits if_splits option.splits)
      from Cons.IH[OF m] obtain g1 x e where
        h: "sem is s' g1 (x @ e)" "g = g1 @ [(nm, x)]" "x \<noteq> []" "list_all (in_class cls) x"
          "e = [] \<or> \<not> in_class cls (hd e)" "rest = (if e \<noteq> [] \<and> hd e = c then tl e else e)"
        by blast
      from h(1) have "sem (i # is) s g1 (x @ e)" unfolding Opt s by (rule sem_Opt_take)
      with h(2-6) show ?thesis by blast
    qed
  qed
qed

lemma match_ID_greedy:
  assumes "match_here (Lit l # Plus None (Chr a) # Plus (Some nm) AnyChr # is) s = Some (g, rest)"
  shows "\<exists>x g'. g = (nm, x) # g' \<and> x \<noteq> [] \<and> (hd x \<noteq> a \<or> x = [a])"
proof -
  let ?R = "Plus (Some nm) AnyChr # is"
  let ?cont = "\<lambda>x r. map_option (\<lambda>(g, r). (add_group None x g, r)) (match_here ?R r)"
  have cont: "?cont x r = match_here ?R r" for x r
    by (cases "match_here ?R r") auto
  from assms have p: "prefix l s" by (auto split: if_splits)
  define t where "t = drop (length l) s"
  let ?n = "length (takeWhile (in_class (Chr a)) t)"
  from assms p have "match_here (Plus None (Chr a) # ?R) t = Some (g, rest)"
    by (simp add: t_def del: match_here.simps(3))
  then have "backtrack ?cont t ?n = Some (g, rest)"
    by (subst (asm) match_here.simps(3)) assumption
  from backtrack_max[OF this] obtain k where k: "0 < k" "k \<le> ?n"
    and mk: "match_here ?R (drop k t) = Some (g, rest)"
    and mx: "\<forall>j. k < j \<and> j \<le> ?n \<longrightarrow> match_here ?R (drop j t) = None"
    unfolding cont by blast
  from mk have "sem ?R (drop k t) g rest" by (rule match_here_sound)
  then obtain x t' g' where x: "drop k t = x @ t'" "x \<noteq> []" "list_all (in_class AnyChr) x"
    "g = (nm, x) # g'" "sem is t' g' rest"
    by (auto elim: sem_PlusE)
  have "hd x \<noteq> a \<or> x = [a]"
  proof (rule ccontr)
    assume "\<not> (hd x \<noteq> a \<or> x = [a])"
    with x(2) obtain x' where x': "x = a # x'" "x' \<noteq> []" by (cases x) auto
    have kl: "k \<le> length t" using k(2) length_takeWhile_le[of "in_class (Chr a)" t] by simp
    have all: "list_all (in_class (Chr a)) (take k t)" using k(2) by (rule take_takeWhile_all)
    have "t = take k t @ a # x' @ t'" using x(1) x'(1) append_take_drop_id[of k t] by simp
    then have "takeWhile (in_class (Chr a)) t =
        take k t @ takeWhile (in_class (Chr a)) (a # x' @ t')"
      using all by (metis list_all_iff takeWhile_append2)
    then have "?n = length (take k t) + length (takeWhile (in_class (Chr a)) (a # x' @ t'))"
      by simp
    with kl have "Suc k \<le> ?n" by simp
    with mx have none: "match_here ?R (drop (Suc k) t) = None" by simp
    have "drop (Suc k) t = tl (drop k t)" by (simp add: drop_Suc drop_tl)
    with x(1) x'(1) have d: "drop (Suc k) t = x' @ t'" by simp
    have "list_all (in_class AnyChr) x'" using x(3) x'(1) by simp
    with x'(2) have "sem ?R (x' @ t') ((nm, x') # g') rest"
      using x(5) by (intro sem_Plus_Some)
    then have "match_here ?R (x' @ t') \<noteq> None" by (rule match_here_complete)
    with none d show False by simp
  qed
  with x(2,4) show ?thesis by blast
qed

lemma sem_prefixD:
  assumes "sem [Lit l1, Plus None c1, Plus (Some n1) d1,
                Lit l2, Plus None c2, Plus (Some n2) d2,
                Lit l3, Plus None c3, Plus (Some n3) d3,
                Lit l4, Plus None c4, Plus (Some n4) d4,
                Lit l5, Plus None c5] s g rest"
  obtains sp1 i sp2 h sp3 u sp4 p sp5 where
    "s = l1 @ sp1 @ i @ l2 @ sp2 @ h @ l3 @ sp3 @ u @ l4 @ sp4 @ p @ l5 @ sp5 @ rest"
    "g = [(n1, i), (n2, h), (n3, u), (n4, p)]"
    "sp1 \<noteq> []" "list_all (in_class c1) sp1" "sp2 \<noteq> []" "list_all (in_class c2) sp2"
    "sp3 \<noteq> []" "list_all (in_class c3) sp3" "sp4 \<noteq> []" "list_all (in_class c4) sp4"
    "sp5 \<noteq> []" "list_all (in_class c5) sp5"
    "i \<noteq> []" "list_all (in_class d1) i" "h \<noteq> []" "list_all (in_class d2) h"
    "u \<noteq> []" "list_all (in_class d3) u" "p \<noteq> []" "list_all (in_class d4) p"
proof -
  from assms obtain sp1 i t1 g1 where 1: "s = l1 @ sp1 @ i @ t1" "g = (n1, i) # g1"
    "sp1 \<noteq> []" "list_all (in_class c1) sp1" "i \<noteq> []" "list_all (in_class d1) i"
    and s1: "sem [Lit l2, Plus None c2, Plus (Some n2) d2,
                Lit l3, Plus None c3, Plus (Some n3) d3,
                Lit l4, Plus None c4, Plus (Some n4) d4,
                Lit l5, Plus None c5] t1 g1 rest"
    by (rule sem_fieldD)
  from s1 obtain sp2 h t2 g2 where 2: "t1 = l2 @ sp2 @ h @ t2" "g1 = (n2, h) # g2"
    "sp2 \<noteq> []" "list_all (in_class c2) sp2" "h \<noteq> []" "list_all (in_class d2) h"
    and s2: "sem [Lit l3, Plus None c3, Plus (Some n3) d3,
                Lit l4, Plus None c4, Plus (Some n4) d4,
                Lit l5, Plus None c5] t2 g2 rest"
    by (rule sem_fieldD)
  from s2 obtain sp3 u t3 g3 where 3: "t2 = l3 @ sp3 @ u @ t3" "g2 = (n3, u) # g3"
    "sp3 \<noteq> []" "list_all (in_class c3) sp3" "u \<noteq> []" "list_all (in_class d3) u"
    and s3: "sem [Lit l4, Plus None c4, Plus (Some n4) d4,
                Lit l5, Plus None c5] t3 g3 rest"
    by (rule sem_fieldD)
  from s3 obtain sp4 p t4 g4 where 4: "t3 = l4 @ sp4 @ p @ t4" "g3 = (n4, p) # g4"
    "sp4 \<noteq> []" "list_all (in_class c4) sp4" "p \<noteq> []" "list_all (in_class d4) p"
    and s4: "sem [Lit l5, Plus None c5] t4 g4 rest"
    by (rule sem_fieldD)
  from s4 obtain t5 where 5: "t4 = l5 @ t5" and s5: "sem [Plus None c5] t5 g4 rest"
    by (auto elim: sem_LitE)
  from s5 obtain sp5 where 6: "t5 = sp5 @ rest" "sp5 \<noteq> []" "list_all (in_class c5) sp5"
    "g4 = []"
    by (auto elim!: sem_PlusE sem_NilE)
  have s: "s = l1 @ sp1 @ i @ l2 @ sp2 @ h @ l3 @ sp3 @ u @ l4 @ sp4 @ p @ l5 @ sp5 @ rest"
    unfolding 1(1) 2(1) 3(1) 4(1) 5 6(1) ..
  have g: "g = [(n1, i), (n2, h), (n3, u), (n4, p)]"
    unfolding 1(2) 2(2) 3(2) 4(2) 6(4) ..
  show thesis
    by (rule that[OF s g 1(3,4) 2(3,4) 3(3,4) 4(3,4) 6(2,3) 1(5,6) 2(5,6) 3(5,6) 4(5,6)])
qed

lemma regex_tail:
  "SSH_KEY_FILE_REGEX =
     [Lit ''Host'', Plus None (Chr CHR '' ''), Plus (Some ''ID'') AnyChr,
      Lit (NL # TAB # ''Hostname''), Plus None (Chr CHR '' ''), Plus (Some ''hostname'') NonSpace,
      Lit (NL # TAB # ''User''), Plus None (Chr CHR '' ''), Plus (Some ''user'') NonSpace,
      Lit (NL # TAB # ''Port''), Plus None (Chr CHR '' ''), Plus (Some ''port'') Digit,
      Lit (NL # TAB # ''IdentityFile''), Plus None (Chr CHR '' '')]
     @ [Plus (Some ''key_file'') NonSpace, Opt NL]"
  by (simp add: SSH_KEY_FILE_REGEX_def)

lemma match_blockD:
  assumes "match_here SSH_KEY_FILE_REGEX s = Some (g, rest)"
  obtains sp1 i sp2 h sp3 u sp4 p sp5 k e where
    "s = ''Host'' @ sp1 @ i @
            (NL # TAB # ''Hostname'') @ sp2 @ h @
            (NL # TAB # ''User'') @ sp3 @ u @
            (NL # TAB # ''Port'') @ sp4 @ p @
            (NL # TAB # ''IdentityFile'') @ sp5 @ k @ e"
    "g = [(''ID'', i), (''hostname'', h), (''user'', u), (''port'', p), (''key_file'', k)]"
    "spaces sp1" "spaces sp2" "spaces sp3" "spaces sp4" "spaces sp5"
    "i \<noteq> []" "NL \<notin> set i" "hd i \<noteq> CHR '' '' \<or> i = '' ''"
    "token h" "token u" "token k"
    "p \<noteq> []" "list_all is_digit p"
    "e = [] \<or> is_space (hd e)"
    "rest = (if e \<noteq> [] \<and> hd e = NL then tl e else e)"
proof -
  from assms[unfolded regex_tail] match_here_tail
  obtain g1 k e where
    t: "sem [Lit ''Host'', Plus None (Chr CHR '' ''), Plus (Some ''ID'') AnyChr,
      Lit (NL # TAB # ''Hostname''), Plus None (Chr CHR '' ''), Plus (Some ''hostname'') NonSpace,
      Lit (NL # TAB # ''User''), Plus None (Chr CHR '' ''), Plus (Some ''user'') NonSpace,
      Lit (NL # TAB # ''Port''), Plus None (Chr CHR '' ''), Plus (Some ''port'') Digit,
      Lit (NL # TAB # ''IdentityFile''), Plus None (Chr CHR '' '')] s g1 (k @ e)"
    and g: "g = g1 @ [(''key_file'', k)]"
    and k: "k \<noteq> []" "list_all (in_class NonSpace) k"
    and e: "e = [] \<or> \<not> in_class NonSpace (hd e)"
      "rest = (if e \<noteq> [] \<and> hd e = NL then tl e else e)"
    by blast
  from t obtain sp1 i sp2 h sp3 u sp4 p sp5 where
    s: "s = ''Host'' @ sp1 @ i @
            (NL # TAB # ''Hostname'') @ sp2 @ h @
            (NL # TAB # ''User'') @ sp3 @ u @
            (NL # TAB # ''Port'') @ sp4 @ p @
            (NL # TAB # ''IdentityFile'') @ sp5 @ k @ e"
    and g1: "g1 = [(''ID'', i), (''hostname'', h), (''user'', u), (''port'', p)]"
    and c: "sp1 \<noteq> []" "list_all (in_class (Chr CHR '' '')) sp1"
      "sp2 \<noteq> []" "list_all (in_class (Chr CHR '' '')) sp2"
      "sp3 \<noteq> []" "list_all (in_class (Chr CHR '' '')) sp3"
      "sp4 \<noteq> []" "list_all (in_class (Chr CHR '' '')) sp4"
      "sp5 \<noteq> []" "list_all (in_class (Chr CHR '' '')) sp5"
      "i \<noteq> []" "list_all (in_class AnyChr) i" "h \<noteq> []" "list_all (in_class NonSpace) h"
      "u \<noteq> []" "list_all (in_class NonSpace) u" "p \<noteq> []" "list_all (in_class Digit) p"
    by (rule sem_prefixD)
  from assms[unfolded SSH_KEY_FILE_REGEX_def] match_ID_greedy
  obtain x g' where x: "g = (''ID'', x) # g'" "hd x \<noteq> CHR '' '' \<or> x = [CHR '' '']"
    by blast
  from x(1) g g1 have "x = i" by simp
  with x(2) have gi: "hd i \<noteq> CHR '' '' \<or> i = '' ''" by simp
  have gg: "g = [(''ID'', i), (''hostname'', h), (''user'', u), (''port'', p), (''key_file'', k)]"
    unfolding g g1 by simp
  have es: "e = [] \<or> is_space (hd e)" using e(1) by simp
  show thesis
    by (rule that[OF s gg _ _ _ _ _ c(11) _ gi _ _ _ c(17) _ es e(2)])
       (use c k in \<open>simp_all add: in_class_simps spaces_def token_def\<close>)
qed

lemma match_taken:
  assumes "match_here SSH_KEY_FILE_REGEX s = Some (g, rest)"
  obtains m r p where "s = m @ rest" "taken m r rest" "is_block m r"
    "group g ''port'' = Inr p" "p \<noteq> []" "list_all is_digit p"
    "config_of_match g = (if length p \<le> MAX_STR_DIGITS then Inr r else Inl ValueError)"
proof -
  from assms obtain sp1 i sp2 h sp3 u sp4 p sp5 k e where
    s: "s = ''Host'' @ sp1 @ i @
            (NL # TAB # ''Hostname'') @ sp2 @ h @
            (NL # TAB # ''User'') @ sp3 @ u @
            (NL # TAB # ''Port'') @ sp4 @ p @
            (NL # TAB # ''IdentityFile'') @ sp5 @ k @ e"
    and g: "g = [(''ID'', i), (''hostname'', h), (''user'', u), (''port'', p), (''key_file'', k)]"
    and c: "spaces sp1" "spaces sp2" "spaces sp3" "spaces sp4" "spaces sp5"
      "i \<noteq> []" "NL \<notin> set i"
    and gi: "hd i \<noteq> CHR '' '' \<or> i = '' ''"
    and tk: "token h" "token u" "token k"
    and p: "p \<noteq> []" "list_all is_digit p"
    and e: "e = [] \<or> is_space (hd e)" "rest = (if e \<noteq> [] \<and> hd e = NL then tl e else e)"
    by (rule match_blockD)
  define r where "r = \<lparr>ID = i, hostname = h, user = u, port = int (dec_value p), key_file = k\<rparr>"
  define b where "b = ''Host'' @ sp1 @ i @
            (NL # TAB # ''Hostname'') @ sp2 @ h @
            (NL # TAB # ''User'') @ sp3 @ u @
            (NL # TAB # ''Port'') @ sp4 @ p @
            (NL # TAB # ''IdentityFile'') @ sp5 @ k"
  define m where "m = (if e \<noteq> [] \<and> hd e = NL then b @ [NL] else b)"
  have sb: "s = b @ e" unfolding s b_def append_assoc ..
  have body: "block_body b r"
    unfolding block_body_def
    apply (rule exI[of _ sp1], rule exI[of _ sp2], rule exI[of _ sp3], rule exI[of _ sp4],
           rule exI[of _ sp5], rule exI[of _ p])
    using c tk p by (simp add: r_def b_def)
  have sm: "s = m @ rest"
  proof (cases "e \<noteq> [] \<and> hd e = NL")
    case True
    then have "e = NL # tl e" by (cases e) auto
    with True e(2) sb show ?thesis by (simp add: m_def)
  next
    case False
    with e(2) sb show ?thesis by (simp add: m_def)
  qed
  have tak: "taken m r rest"
  proof (cases "e \<noteq> [] \<and> hd e = NL")
    case True
    with body gi show ?thesis by (auto simp: taken_def m_def r_def)
  next
    case False
    with e have "rest = [] \<or> (is_space (hd rest) \<and> hd rest \<noteq> NL)" by auto
    with False body gi show ?thesis by (auto simp: taken_def m_def r_def)
  qed
  have blk: "is_block m r" using body by (auto simp: is_block_def m_def)
  have gp: "group g ''port'' = Inr p" by (simp add: g group_simps)
  have cfg: "config_of_match g = (if length p \<le> MAX_STR_DIGITS then Inr r else Inl ValueError)"
    unfolding g r_def using p by (rule config_of_block)
  show thesis using sm tak blk gp p cfg by (rule that)
qed

lemma long_port_iff: "group g ''port'' = Inr p \<Longrightarrow> long_port g \<longleftrightarrow> MAX_STR_DIGITS < length p"
  by (simp add: long_port_def)

lemma collect_finditer_scan:
  "(list_ex long_port (finditer s) \<longrightarrow> collect (finditer s) = Inl ValueError) \<and>
   (\<not> list_ex long_port (finditer s) \<longrightarrow> (\<exists>rs. collect (finditer s) = Inr rs \<and> scan s rs))"
proof (induction s rule: finditer.induct)
  case (1 s)
  show ?case
  proof (cases "match_here SSH_KEY_FILE_REGEX s")
    case None
    show ?thesis
    proof (cases s)
      case Nil
      then show ?thesis by (auto simp: finditer_Nil intro: scan_end)
    next
      case (Cons c s')
      have f: "finditer (c # s') = finditer s'" using None Cons by (simp add: finditer_skip)
      have no: "\<forall>m r rest. c # s' = m @ rest \<longrightarrow> \<not> is_block m r"
      proof (intro allI impI notI)
        fix m r rest
        assume "c # s' = m @ rest" "is_block m r"
        then obtain g where "sem SSH_KEY_FILE_REGEX s g rest"
          using is_block_sem[of m r rest] Cons by auto
        then have "match_here SSH_KEY_FILE_REGEX s \<noteq> None" by (rule match_here_complete)
        with None show False by simp
      qed
      from "1.IH"(1)[OF None Cons] no show ?thesis
        unfolding Cons f by (auto intro: scan_skip)
    qed
  next
    case (Some a)
    obtain g rest where a: "a = (g, rest)" by (cases a)
    note IH = "1.IH"(2)[OF Some a[symmetric]]
    from Some a have mh: "match_here SSH_KEY_FILE_REGEX s = Some (g, rest)" by simp
    then obtain m r p where m: "s = m @ rest" "taken m r rest"
      "group g ''port'' = Inr p"
      "config_of_match g = (if length p \<le> MAX_STR_DIGITS then Inr r else Inl ValueError)"
      by (rule match_taken)
    have f: "finditer s = g # finditer rest" using mh by (rule finditer_match)
    show ?thesis
    proof (cases "long_port g")
      case True
      with m(3,4) have "config_of_match g = Inl ValueError" by (simp add: long_port_iff)
      with True show ?thesis unfolding f by (simp add: bind_err_def)
    next
      case False
      with m(3,4) have cfg: "config_of_match g = Inr r" by (simp add: long_port_iff)
      show ?thesis
      proof (intro conjI impI)
        assume "list_ex long_port (finditer s)"
        with False f have "list_ex long_port (finditer rest)" by simp
        with IH have "collect (finditer rest) = Inl ValueError" by blast
        with cfg show "collect (finditer s) = Inl ValueError"
          unfolding f by (simp add: bind_err_def)
      next
        assume "\<not> list_ex long_port (finditer s)"
        with f have "\<not> list_ex long_port (finditer rest)" by simp
        with IH obtain rs where rs: "collect (finditer rest) = Inr rs" "scan rest rs" by blast
        have "scan (m @ rest) (r # rs)" using m(2) rs(2) by (rule scan_block)
        moreover have "collect (finditer s) = Inr (r # rs)"
          unfolding f using cfg rs(1) by (simp add: bind_err_def)
        ultimately show "\<exists>rs. collect (finditer s) = Inr rs \<and> scan s rs"
          using m(1) by auto
      qed
    qed
  qed
qed

lemma match_Lit: "match_here (Lit l # is) (l @ s) = match_here is s"
  by simp

lemma takeWhile_run:
  assumes "list_all P x" "s = [] \<or> \<not> P (hd s)"
  shows "takeWhile P (x @ s) = x"
proof -
  have "takeWhile P s = []" using assms(2) by (cases s) auto
  with assms(1) show ?thesis by (simp add: takeWhile_append2 list_all_iff)
qed

lemma match_Plus_greedy:
  assumes "x \<noteq> []" "list_all (in_class cls) x" "s = [] \<or> \<not> in_class cls (hd s)"
    and "match_here is s = Some (g, rest)"
  shows "match_here (Plus name cls # is) (x @ s) = Some (add_group name x g, rest)"
proof -
  have n: "length (takeWhile (in_class cls) (x @ s)) = length x"
    using assms(2,3) by (simp add: takeWhile_run)
  show ?thesis
    unfolding match_here.simps n
    by (rule backtrack_first) (use assms(1,4) in simp_all)
qed

lemma match_field:
  assumes "x \<noteq> []" "list_all (in_class cls) x" "\<not> in_class (Chr CHR '' '') (hd x)"
    and "s = [] \<or> \<not> in_class cls (hd s)"
    and "match_here is s = Some (g, rest)"
  shows "match_here (Lit l # Plus None (Chr CHR '' '') # Plus (Some n) cls # is)
           (l @ '' '' @ x @ s) = Some ((n, x) # g, rest)"
proof -
  have a: "match_here (Plus (Some n) cls # is) (x @ s) = Some ((n, x) # g, rest)"
    using match_Plus_greedy[OF assms(1,2,4,5), of "Some n"] by simp
  have b: "x @ s = [] \<or> \<not> in_class (Chr CHR '' '') (hd (x @ s))"
    using assms(1,3) by simp
  have "match_here (Plus None (Chr CHR '' '') # Plus (Some n) cls # is) ('' '' @ x @ s)
        = Some (add_group None '' '' ((n, x) # g), rest)"
    by (rule match_Plus_greedy[OF _ _ b a]) simp_all
  then show ?thesis unfolding match_Lit by simp
qed

lemma token_props:
  assumes "token w"
  shows "w \<noteq> []" "list_all (in_class NonSpace) w" "list_all (in_class AnyChr) w"
    "\<not> in_class (Chr CHR '' '') (hd w)"
proof -
  from assms show 1: "w \<noteq> []" and 2: "list_all (in_class NonSpace) w"
    by (simp_all add: token_def in_class_simps)
  have sp: "is_space NL" "is_space CHR '' ''" by (simp_all add: is_space_def)
  from assms show "list_all (in_class AnyChr) w"
    using sp(1) by (auto simp: token_def list_all_iff)
  from 1 have "hd w \<in> set w" by simp
  with assms have "\<not> is_space (hd w)" by (auto simp: token_def list_all_iff)
  with sp(2) show "\<not> in_class (Chr CHR '' '') (hd w)" by auto
qed

lemma digits_props:
  assumes "p \<noteq> []" "list_all is_digit p"
  shows "list_all (in_class Digit) p" "\<not> in_class (Chr CHR '' '') (hd p)"
proof -
  from assms show "list_all (in_class Digit) p" by (simp add: in_class_simps)
  from assms have "is_digit (hd p)" by (cases p) auto
  then show "\<not> in_class (Chr CHR '' '') (hd p)" by (auto simp: is_digit_def)
qed

lemma NL_classes: "is_space NL" "\<not> is_digit NL"
  by (simp_all add: is_space_def is_digit_def)

lemma match_fields:
  assumes "token i" "token h" "token u" "token k" "p \<noteq> []" "list_all is_digit p"
  shows "match_here SSH_KEY_FILE_REGEX
           (''Host'' @ '' '' @ i @
           ((NL # TAB # ''Hostname'') @ '' '' @ h @
           ((NL # TAB # ''User'') @ '' '' @ u @
           ((NL # TAB # ''Port'') @ '' '' @ p @
           ((NL # TAB # ''IdentityFile'') @ '' '' @ k @ (NL # rest))))))
         = Some ([(''ID'', i), (''hostname'', h), (''user'', u), (''port'', p), (''key_file'', k)],
                 rest)"
proof -
  have 5: "match_here [Opt NL] (NL # rest) = Some ([], rest)" by simp
  show ?thesis
    unfolding SSH_KEY_FILE_REGEX_def
    apply (rule match_field[OF token_props(1,3,4)[OF assms(1)]], simp add: NL_classes)
    apply (rule match_field[OF token_props(1,2,4)[OF assms(2)]], simp add: NL_classes)
    apply (rule match_field[OF token_props(1,2,4)[OF assms(3)]], simp add: NL_classes)
    apply (rule match_field[OF assms(5) digits_props[OF assms(5,6)]], simp add: NL_classes)
    apply (rule match_field[OF token_props(1,2,4)[OF assms(4)]], simp add: NL_classes)
    apply (rule 5)
    done
qed

lemma block_shape:
  "block_text r @ rest =
     ''Host'' @ '' '' @ ID r @
     ((NL # TAB # ''Hostname'') @ '' '' @ hostname r @
     ((NL # TAB # ''User'') @ '' '' @ user r @
     ((NL # TAB # ''Port'') @ '' '' @ dec (nat (port r)) @
     ((NL # TAB # ''IdentityFile'') @ '' '' @ key_file r @ (NL # NL # rest)))))"
  by (simp add: block_text_def)

lemma match_block:
  assumes "well_formed r"
  shows "match_here SSH_KEY_FILE_REGEX (block_text r @ rest) = Some (groups_of r, NL # rest)"
  using assms unfolding block_shape groups_of_def well_formed_def
  by (intro match_fields) (simp_all add: dec_nonempty dec_digits)

lemma no_match_NL: "match_here SSH_KEY_FILE_REGEX (NL # s) = None"
  by (simp add: SSH_KEY_FILE_REGEX_def)

lemma well_formed_port:
  assumes "well_formed r"
  shows "nat (port r) < 10 ^ MAX_STR_DIGITS" "int (nat (port r)) = port r"
proof -
  from assms have p: "0 \<le> port r" "port r < 10 ^ MAX_STR_DIGITS"
    by (simp_all add: well_formed_def)
  from p show "nat (port r) < 10 ^ MAX_STR_DIGITS"
    by (metis nat_less_iff of_nat_numeral of_nat_power)
  from p show "int (nat (port r)) = port r" by simp
qed

lemma block_written: "well_formed r \<Longrightarrow> block r = Inr (block_text r)"
  by (simp add: block_def block_text_def bind_err_def py_str_nonneg well_formed_def)

lemma written_blocks:
  "list_all well_formed rs \<Longrightarrow> dataclass_to_file rs = (Inr (), concat (map block_text rs))"
  by (induction rs) (simp_all add: block_written)

lemma config_of_groups:
  "well_formed r \<Longrightarrow> config_of_match (groups_of r) = Inr r"
  using well_formed_port[of r] py_int_dec[of "nat (port r)"]
  by (simp add: config_of_match_def groups_of_def group_simps bind_err_def)

lemma finditer_blocks:
  "list_all well_formed rs \<Longrightarrow> finditer (concat (map block_text rs)) = map groups_of rs"
proof (induction rs)
  case Nil
  then show ?case by (simp add: finditer_Nil)
next
  case (Cons r rs)
  let ?t = "concat (map block_text rs)"
  from Cons have wf: "well_formed r" and IH: "finditer ?t = map groups_of rs"
    by simp_all
  have "finditer (concat (map block_text (r # rs))) = finditer (block_text r @ ?t)"
    by simp
  also have "\<dots> = groups_of r # finditer (NL # ?t)"
    using match_block[OF wf] by (rule finditer_match)
  also have "finditer (NL # ?t) = finditer ?t"
    using no_match_NL by (rule finditer_skip)
  finally show ?case using IH by simp
qed

lemma collect_groups:
  "list_all well_formed rs \<Longrightarrow> collect (map groups_of rs) = Inr rs"
  by (induction rs) (simp_all add: config_of_groups bind_err_def)

lemma parse_written:
  "list_all well_formed rs \<Longrightarrow>
   fst (dataclass_to_file rs) = Inr () \<and>
   file_to_dataclass (Some (snd (dataclass_to_file rs))) = Inr rs"
  by (simp add: written_blocks file_to_dataclass_def finditer_blocks collect_groups)


section \<open>The claims about the configuration file\<close>

lemmas eval_parse = file_to_dataclass_def finditer.simps SSH_KEY_FILE_REGEX_def
  config_of_match_def group_def bind_err_def py_int_def int_unsigned_def strip_def
  is_space_def is_digit_def digit_val_def MAX_STR_DIGITS_def

lemma well_formed_web: "well_formed web"
  by (simp add: well_formed_def token_def web_def is_space_def port_within_limit)

lemma well_formed_db: "well_formed db"
  by (simp add: well_formed_def token_def db_def is_space_def port_within_limit)

text \<open>The bound on the port is sharp: the first port beyond it is not written.\<close>

lemma serialize_overlong_port:
  "dataclass_to_file [r\<lparr>port := 10 ^ MAX_STR_DIGITS\<rparr>] = (Inl ValueError, [])"
  by (simp add: block_def bind_err_def py_str_nonneg)

text \<open>
  C1. For every sequence of well-formed host records (id, hostname, user and key file
  non-space tokens, the port a non-negative integer of at most 4300 decimal digits, which
  are the ports Python writes in decimal), the serializer writes all of it without
  raising, and parsing the text it writes gives back the same records in the same order.
\<close>

theorem parse_serialize_roundtrip:
  assumes "\<forall>r\<in>set rs. well_formed r"
  shows "fst (dataclass_to_file rs) = Inr () \<and>
         file_to_dataclass (Some (snd (dataclass_to_file rs))) = Inr rs"
  using assms by (simp add: parse_written list_all_iff)

theorem parse_serialize_roundtrip_witness:
  "well_formed web \<and> well_formed db \<and>
   fst (dataclass_to_file [web, db]) = Inr () \<and>
   file_to_dataclass (Some (snd (dataclass_to_file [web, db]))) = Inr [web, db]"
  using parse_serialize_roundtrip[of "[web, db]"] well_formed_web well_formed_db by simp

lemma finditer_member:
  "g \<in> set (finditer s) \<Longrightarrow> \<exists>t rest. match_here SSH_KEY_FILE_REGEX t = Some (g, rest)"
proof (induction s rule: finditer.induct)
  case (1 s)
  show ?case
  proof (cases "match_here SSH_KEY_FILE_REGEX s")
    case None
    show ?thesis
    proof (cases s)
      case Nil
      with "1.prems" show ?thesis by (simp add: finditer_Nil)
    next
      case (Cons c s')
      with None "1.prems" have "g \<in> set (finditer s')" by (simp add: finditer_skip)
      with "1.IH"(1)[OF None Cons] show ?thesis .
    qed
  next
    case (Some a)
    obtain g' rest where a: "a = (g', rest)" by (cases a)
    with Some have mh: "match_here SSH_KEY_FILE_REGEX s = Some (g', rest)" by simp
    from "1.prems" finditer_match[OF mh] have "g = g' \<or> g \<in> set (finditer rest)" by auto
    then show ?thesis
    proof
      assume "g = g'"
      with mh show ?thesis by blast
    next
      assume "g \<in> set (finditer rest)"
      with "1.IH"(2)[OF Some a[symmetric]] show ?thesis .
    qed
  qed
qed

lemma match_port_digits:
  assumes "match_here SSH_KEY_FILE_REGEX t = Some (g, rest)"
  shows "\<exists>p. group g ''port'' = Inr p \<and> p \<noteq> [] \<and> list_all is_digit p \<and>
             py_int p = (if length p \<le> MAX_STR_DIGITS then Inr (int (dec_value p))
                         else Inl ValueError)"
proof -
  from assms obtain p where "group g ''port'' = Inr p" "p \<noteq> []" "list_all is_digit p"
    by (rule match_taken)
  then show ?thesis using py_int_digits_cases[of p] by blast
qed

lemma parse_raises_iff:
  "file_to_dataclass (Some content) = Inl e \<longleftrightarrow>
   e = ValueError \<and> list_ex long_port (finditer content)"
  using collect_finditer_scan[of content] by (auto simp: file_to_dataclass_def)

lemma long_port_file_shape:
  "long_port_file =
     ''Host'' @ '' '' @ ''a'' @
     ((NL # TAB # ''Hostname'') @ '' '' @ ''a.com'' @
     ((NL # TAB # ''User'') @ '' '' @ ''admin'' @
     ((NL # TAB # ''Port'') @ '' '' @ replicate 4301 CHR ''1'' @
     ((NL # TAB # ''IdentityFile'') @ '' '' @ ''/k/a'' @ (NL # [])))))"
  by (simp add: long_port_file_def)

lemma finditer_long_port_file:
  "finditer long_port_file =
     [[(''ID'', ''a''), (''hostname'', ''a.com''), (''user'', ''admin''),
       (''port'', replicate 4301 CHR ''1''), (''key_file'', ''/k/a'')]]"
proof -
  have "match_here SSH_KEY_FILE_REGEX long_port_file =
      Some ([(''ID'', ''a''), (''hostname'', ''a.com''), (''user'', ''admin''),
             (''port'', replicate 4301 CHR ''1''), (''key_file'', ''/k/a'')], [])"
    unfolding long_port_file_shape
    by (rule match_fields) (simp_all add: token_def is_space_def is_digit_def list_all_iff)
  from finditer_match[OF this] show ?thesis by (simp add: finditer_Nil)
qed

text \<open>
  C3, as the code has it. A Port field that is not numeric never makes the parser fail:
  the pattern's port group matches decimal digits only, so such a block is no match and
  is skipped. The number conversion is applied to matched digit strings only; it raises,
  and the parser with it (a \<open>ValueError\<close>), exactly when a matched port has more than
  4300 digits. So there are file contents on which the conversion raises, and their Port
  field is numeric. (The claim says the parser fails on a Port field that is not numeric.)
\<close>

theorem port_conversion_raises_on_long_digits_only:
  "(\<forall>g\<in>set (finditer content).
      \<exists>p. group g ''port'' = Inr p \<and> p \<noteq> [] \<and> list_all is_digit p \<and>
          py_int p = (if length p \<le> MAX_STR_DIGITS then Inr (int (dec_value p))
                      else Inl ValueError))
   \<and> (\<forall>e. file_to_dataclass (Some content) = Inl e \<longleftrightarrow>
            e = ValueError \<and> list_ex long_port (finditer content))"
  by (auto dest!: finditer_member match_port_digits simp: parse_raises_iff)

theorem port_conversion_raises_on_long_digits_only_witness:
  "py_int ''abc'' = Inl ValueError \<and>
   file_to_dataclass (Some bad_port_file) = Inr [] \<and>
   list_ex long_port (finditer long_port_file) \<and>
   file_to_dataclass (Some long_port_file) = Inl ValueError"
proof -
  have "py_int ''abc'' = Inl ValueError"
    by (simp add: eval_parse)
  moreover have "file_to_dataclass (Some bad_port_file) = Inr []"
    by (simp add: eval_parse bad_port_file_def)
  moreover have l: "list_ex long_port (finditer long_port_file)"
    by (simp add: finditer_long_port_file long_port_def group_simps MAX_STR_DIGITS_def)
  moreover have "file_to_dataclass (Some long_port_file) = Inl ValueError"
    using port_conversion_raises_on_long_digits_only[of long_port_file] l by blast
  ultimately show ?thesis by simp
qed

theorem non_numeric_port_counterexample:
  "py_int ''abc'' = Inl ValueError \<and>
   file_to_dataclass (Some bad_port_file) = Inr [] \<and>
   \<not> (\<exists>content g p. g \<in> set (finditer content) \<and> group g ''port'' = Inr p \<and>
                     \<not> list_all is_digit p)"
proof -
  have "py_int ''abc'' = Inl ValueError"
    by (simp add: eval_parse)
  moreover have "file_to_dataclass (Some bad_port_file) = Inr []"
    by (simp add: eval_parse bad_port_file_def)
  moreover have "\<not> (\<exists>content g p. g \<in> set (finditer content) \<and> group g ''port'' = Inr p \<and>
                     \<not> list_all is_digit p)"
    by (auto dest!: finditer_member match_port_digits)
  ultimately show ?thesis by simp
qed

text \<open>
  C6, as the code has it. For every file content, text that does not match the five-line
  block pattern is passed over without an error and gives no record. The parser raises
  (a \<open>ValueError\<close>) only for a matched block, when its port has more than 4300 digits,
  which the number conversion refuses; otherwise it returns a record list that is a scan
  of the content: one record for each block the pattern takes, in file order and without
  overlap, every character passed over lying at a position where no block starts. (The
  claim gives every file content an output with one record for each match.)
\<close>

theorem parse_skips_unmatched_text:
  "(list_ex long_port (finditer content) \<longrightarrow>
      file_to_dataclass (Some content) = Inl ValueError) \<and>
   (\<not> list_ex long_port (finditer content) \<longrightarrow>
      (\<exists>rs. file_to_dataclass (Some content) = Inr rs \<and> scan content rs))"
  using collect_finditer_scan[of content] by (simp add: file_to_dataclass_def)

theorem parse_skips_unmatched_text_witness:
  "\<not> list_ex long_port (finditer messy_file) \<and>
   file_to_dataclass (Some messy_file) = Inr [web] \<and> scan messy_file [web]"
proof -
  have p: "file_to_dataclass (Some messy_file) = Inr [web]"
    by (simp add: eval_parse messy_file_def web_def)
  with parse_skips_unmatched_text[of messy_file]
  have "\<not> list_ex long_port (finditer messy_file)" by auto
  with parse_skips_unmatched_text[of messy_file] p show ?thesis by auto
qed

theorem parse_long_port_counterexample:
  "finditer long_port_file =
     [[(''ID'', ''a''), (''hostname'', ''a.com''), (''user'', ''admin''),
       (''port'', replicate 4301 CHR ''1''), (''key_file'', ''/k/a'')]] \<and>
   file_to_dataclass (Some long_port_file) = Inl ValueError"
proof -
  have "list_ex long_port (finditer long_port_file)"
    by (simp add: finditer_long_port_file long_port_def group_simps MAX_STR_DIGITS_def)
  then have "file_to_dataclass (Some long_port_file) = Inl ValueError"
    by (simp add: parse_raises_iff)
  with finditer_long_port_file show ?thesis by simp
qed

lemma scan_ports: "scan s rs \<Longrightarrow> \<forall>r\<in>set rs. 0 \<le> port r"
  by (induction rule: scan.induct) (auto simp: taken_def block_body_def)

text \<open>
  C9, as the code has it. Every record the parser produces has a port that is a
  non-negative integer: the value of the decimal digits matched. The pattern sets no
  upper bound and does not exclude 0. (The claim says the port lies in 1-65535.)
\<close>

theorem parsed_port_nonnegative:
  assumes "file_to_dataclass (Some content) = Inr rs"
  shows "\<forall>r\<in>set rs. 0 \<le> port r"
proof -
  from assms collect_finditer_scan[of content] have "scan content rs"
    by (auto simp: file_to_dataclass_def)
  then show ?thesis by (rule scan_ports)
qed

theorem parsed_port_nonnegative_witness:
  "file_to_dataclass (Some port_zero_file) =
     Inr [\<lparr>ID = ''a'', hostname = ''a.com'', user = ''admin'', port = 0, key_file = ''/k/a''\<rparr>,
          \<lparr>ID = ''b'', hostname = ''b.com'', user = ''admin'', port = 70000, key_file = ''/k/b''\<rparr>]
   \<and> list_all (\<lambda>r. 0 \<le> port r)
        [\<lparr>ID = ''a'', hostname = ''a.com'', user = ''admin'', port = 0, key_file = ''/k/a''\<rparr>,
         \<lparr>ID = ''b'', hostname = ''b.com'', user = ''admin'', port = 70000, key_file = ''/k/b''\<rparr>]"
proof -
  have p: "file_to_dataclass (Some port_zero_file) =
     Inr [\<lparr>ID = ''a'', hostname = ''a.com'', user = ''admin'', port = 0, key_file = ''/k/a''\<rparr>,
          \<lparr>ID = ''b'', hostname = ''b.com'', user = ''admin'', port = 70000, key_file = ''/k/b''\<rparr>]"
    by (simp add: eval_parse port_zero_file_def)
  show ?thesis using parsed_port_nonnegative[OF p] p by simp
qed

theorem port_range_counterexample:
  "file_to_dataclass (Some port_zero_file) =
     Inr [\<lparr>ID = ''a'', hostname = ''a.com'', user = ''admin'', port = 0, key_file = ''/k/a''\<rparr>,
          \<lparr>ID = ''b'', hostname = ''b.com'', user = ''admin'', port = 70000, key_file = ''/k/b''\<rparr>]
   \<and> \<not> (1 \<le> (0::int)) \<and> \<not> ((70000::int) \<le> 65535)"
proof -
  have "file_to_dataclass (Some port_zero_file) =
     Inr [\<lparr>ID = ''a'', hostname = ''a.com'', user = ''admin'', port = 0, key_file = ''/k/a''\<rparr>,
          \<lparr>ID = ''b'', hostname = ''b.com'', user = ''admin'', port = 70000, key_file = ''/k/b''\<rparr>]"
    by (simp add: eval_parse port_zero_file_def)
  then show ?thesis by simp
qed

section \<open>The claims about the shell\<close>

lemma parse_web_world: "file_to_dataclass (config web_world) = Inr [web]"
  using parse_written[of "[web]"] by (simp add: web_world_def well_formed_web)

lemma parse_empty_world: "file_to_dataclass (config empty_world) = Inr []"
  by (simp add: empty_world_def file_to_dataclass_def finditer_Nil)

subsection \<open>Listing the hosts\<close>

lemma fold_print_config: "config (fold (\<lambda>x. print (f x)) xs w) = config w"
  by (induction xs arbitrary: w) (simp_all add: print_def emit_def)

lemma list_config_nonempty:
  assumes "file_to_dataclass (config w) = Inr hosts" "hosts \<noteq> []"
  shows "fst (list_config w) = Inr ()"
proof -
  from assms(2) obtain h hs where "hosts = h # hs" by (cases hosts) auto
  with assms(1) show ?thesis by (simp add: list_config_def py_max_def Let_def)
qed

lemma list_config_on_empty:
  assumes "file_to_dataclass (config w) = Inr []"
  shows "list_config w = (Inl ValueError, w)"
  using assms by (simp add: list_config_def py_max_def)

text \<open>
  C5, as the code has it. On the empty host list the list operation ends in a fatal error,
  raised by the computation of the column widths (the maximum of an empty sequence)
  before anything is printed; on every non-empty host list it completes without error.
  (The claim says the failure comes from indexing the first record after the table has
  been printed.)
\<close>

theorem list_config_empty_fails_before_table:
  "(file_to_dataclass (config w) = Inr [] \<longrightarrow> list_config w = (Inl ValueError, w)) \<and>
   (\<forall>hosts. file_to_dataclass (config w) = Inr hosts \<and> hosts \<noteq> []
       \<longrightarrow> fst (list_config w) = Inr ())"
  by (auto simp: list_config_on_empty list_config_nonempty)

theorem list_config_empty_fails_before_table_witness:
  "file_to_dataclass (config empty_world) = Inr [] \<and>
   list_config empty_world = (Inl ValueError, empty_world) \<and>
   file_to_dataclass (config web_world) = Inr [web] \<and>
   fst (list_config web_world) = Inr ()"
  using list_config_empty_fails_before_table[of empty_world]
    list_config_empty_fails_before_table[of web_world]
    parse_empty_world parse_web_world
  by simp

theorem list_config_empty_counterexample:
  "fst (list_config empty_world) = Inl ValueError \<and>
   fst (list_config empty_world) \<noteq> Inl IndexError \<and>
   outputs (snd (list_config empty_world)) = []"
  using list_config_on_empty[OF parse_empty_world] by (simp add: empty_world_def)

text \<open>
  C8, as the code has it. For the host list with the single record web
  (web.example.com, admin, 22, /k/web) the list operation prints the header line
  \<open>IDENTIFIER | HOST\<close>, a rule of 27 \<open>=\<close> characters, the one row
  \<open>web | admin@web.example.com\<close> and the usage line. The column widths are the maximal
  field lengths over the records, so with one record no \<open>.\<close> is added to its row. (The
  claim gives the row as \<open>web... | admin@web.example.com...\<close>.)
\<close>

theorem list_config_single_record:
  assumes "file_to_dataclass (config w) = Inr [web]"
  shows "list_config w =
           (Inr (),
            w\<lparr>outputs := outputs w @
               [Stdout (''IDENTIFIER | HOST'' @ [NL]),
                Stdout (replicate 27 CHR ''='' @ [NL]),
                Stdout (''web | admin@web.example.com'' @ [NL]),
                Stdout (NL # ''Usage: '' @ [CHR 0x27] @ ''ssh <identifier>'' @ [CHR 0x27] @
                        '' (eg: ssh web)'' @ [NL])]\<rparr>)"
  using assms
  by (simp add: list_config_def py_max_def Let_def print_def emit_def table_row_def
      ljust_def web_def)

theorem list_config_single_record_witness:
  "file_to_dataclass (config web_world) = Inr [web] \<and>
   outputs (snd (list_config web_world)) =
     [Stdout (''IDENTIFIER | HOST'' @ [NL]),
      Stdout (replicate 27 CHR ''='' @ [NL]),
      Stdout (''web | admin@web.example.com'' @ [NL]),
      Stdout (NL # ''Usage: '' @ [CHR 0x27] @ ''ssh <identifier>'' @ [CHR 0x27] @
              '' (eg: ssh web)'' @ [NL])]"
  using list_config_single_record[OF parse_web_world] parse_web_world
  by (simp add: web_world_def)

theorem list_config_row_counterexample:
  "Stdout (''web... | admin@web.example.com...'' @ [NL])
     \<notin> set (outputs (snd (list_config web_world)))"
proof -
  have "list_config web_world =
           (Inr (),
            web_world\<lparr>outputs := outputs web_world @
               [Stdout (''IDENTIFIER | HOST'' @ [NL]),
                Stdout (replicate 27 CHR ''='' @ [NL]),
                Stdout (''web | admin@web.example.com'' @ [NL]),
                Stdout (NL # ''Usage: '' @ [CHR 0x27] @ ''ssh <identifier>'' @ [CHR 0x27] @
                        '' (eg: ssh web)'' @ [NL])]\<rparr>)"
    using parse_web_world
    by (simp add: list_config_def py_max_def Let_def print_def emit_def table_row_def
        ljust_def web_def)
  moreover have "outputs web_world = []" by (simp add: web_world_def)
  ultimately show ?thesis by (simp add: eval_nat_numeral)
qed

subsection \<open>The add-host wizard\<close>

lemma lower_chr_dot:
  assumes "lower_chr c = CHR ''.''"
  shows "c = CHR ''.''"
proof (rule ccontr)
  assume ne: "c \<noteq> CHR ''.''"
  let ?n = "of_char c :: nat"
  let ?up = "(65 \<le> ?n \<and> ?n \<le> 90) \<or> (192 \<le> ?n \<and> ?n \<le> 222 \<and> ?n \<noteq> 215)"
  have l: "lower_chr c = (if ?up then char_of (?n + 32) else c)"
    by (simp only: lower_chr_def Let_def)
  have up: ?up
  proof (rule ccontr)
    assume "\<not> ?up"
    with l have "lower_chr c = c" by (simp only: if_False)
    with assms ne show False by simp
  qed
  with l have "lower_chr c = char_of (?n + 32)" by (simp only: if_True)
  with assms have eq: "char_of (?n + 32) = CHR ''.''" by simp
  from eq have "(of_char (char_of (?n + 32)) :: nat) = of_char CHR ''.''" by (rule arg_cong)
  then have m: "(?n + 32) mod 256 = 46" by (simp only: of_char_of) simp
  from up have "?n + 32 < 256" by linarith
  then have "(?n + 32) mod 256 = ?n + 32" by (rule mod_less)
  with m have "?n + 32 = 46" by simp
  with up show False by linarith
qed

lemma set_strip: "set (strip s) \<subseteq> set s"
proof -
  have "set (strip s) = set (dropWhile is_space (rev (dropWhile is_space s)))"
    by (simp add: strip_def)
  also have "\<dots> \<subseteq> set (rev (dropWhile is_space s))" by (auto dest: set_dropWhileD)
  also have "\<dots> \<subseteq> set s" by (auto dest: set_dropWhileD)
  finally show ?thesis .
qed

lemma no_dot_lower_strip:
  assumes "CHR ''.'' \<notin> set s"
  shows "CHR ''.'' \<notin> set (lower (strip s))"
proof
  assume "CHR ''.'' \<in> set (lower (strip s))"
  then obtain c where "c \<in> set (strip s)" "lower_chr c = CHR ''.''"
    by (auto simp: lower_def)
  then have "CHR ''.'' \<in> set (strip s)" by (auto dest: lower_chr_dot)
  with set_strip assms show False by blast
qed

text \<open>
  C10. In the add-host wizard, a domain name without a \<open>.\<close> makes the derivation of the
  default alias fail with a fatal error (the split gives one part where two are
  unpacked): the wizard ends there, before any further prompt, with nothing printed and
  the configuration file untouched.
\<close>

theorem add_host_without_dot_fails:
  assumes "CHR ''.'' \<notin> set s"
  shows "add_host e w (Line s # ins) = (Inl ValueError, w, ins)"
  using no_dot_lower_strip[OF assms] by (simp add: add_host_def split_once_def)

theorem add_host_without_dot_fails_witness:
  "CHR ''.'' \<notin> set ''localhost'' \<and>
   add_host env0 web_world [Line ''localhost'', Line ''lh''] =
     (Inl ValueError, web_world, [Line ''lh''])"
  using add_host_without_dot_fails[of "''localhost''" env0 web_world "[Line ''lh'']"]
  by simp

subsection \<open>The dispatcher\<close>

lemma command_tokens: "\<forall>c\<in>set commands. c \<noteq> [] \<and> list_all (\<lambda>x. \<not> is_space x) c"
  by (simp add: commands_def is_space_def)

lemma prefix_first_token:
  assumes "prefix c line" "c \<noteq> []" "list_all (\<lambda>x. \<not> is_space x) c"
  shows "prefix c (first_token line)"
proof -
  from assms(1) obtain t where line: "line = c @ t" by (auto simp: prefix_def)
  from assms(2,3) have "\<not> is_space (hd c)" by (cases c) auto
  with assms(2) line have "dropWhile is_space line = line" by (cases c) auto
  moreover have "takeWhile (\<lambda>x. \<not> is_space x) (c @ t) = c @ takeWhile (\<lambda>x. \<not> is_space x) t"
    using assms(3) by (simp add: takeWhile_append2 list_all_iff)
  ultimately show ?thesis by (simp add: first_token_def line)
qed

lemma no_command_line:
  assumes "\<forall>c\<in>set commands. \<not> prefix c (first_token line)"
  shows "\<forall>c\<in>set commands. \<not> prefix c line"
  using assms command_tokens prefix_first_token by blast

lemma dispatch_unknown:
  assumes "\<forall>c\<in>set commands. \<not> prefix c line"
  shows "dispatch e w line =
           (if html_ok e (unknown_markup line) then Continue (emit (unknown_command line) w)
            else Crashed ExpatError w)"
  using assms by (simp add: dispatch_def commands_def)

text \<open>
  C4, as the code has it. The dispatcher matches the line itself, from its first
  character, against the command names as prefixes; leading whitespace is not skipped.
  The unknown-command message is built as markup with the line inside it. Every line that
  starts with none of the command names, and so every line whose first
  whitespace-delimited token starts with none of them, and whose message is markup that
  the formatter accepts, gives exactly one unknown-command message and nothing else: the
  configuration file is unchanged and the loop goes on. (The claim says the first
  whitespace-delimited token is what is matched.)
\<close>

theorem unmatched_line_is_unknown_command:
  assumes "file_to_dataclass (config w) = Inr hosts"
    and "(\<forall>c\<in>set commands. \<not> prefix c line) \<or>
         (\<forall>c\<in>set commands. \<not> prefix c (first_token line))"
    and "html_ok e (unknown_markup line)"
  shows "step e w (Line line) = Continue (w\<lparr>outputs := outputs w @ [unknown_command line]\<rparr>)"
proof -
  from assms(2) have "\<forall>c\<in>set commands. \<not> prefix c line"
    using no_command_line by blast
  then have "dispatch e w line = Continue (emit (unknown_command line) w)"
    using assms(3) by (simp add: dispatch_unknown)
  with assms(1) show ?thesis by (simp add: step_def emit_def)
qed

theorem unmatched_line_is_unknown_command_witness:
  "file_to_dataclass (config web_world) = Inr [web] \<and>
   list_all (\<lambda>c. \<not> prefix c (first_token ''  connect web'')) commands \<and>
   html_ok env0 (unknown_markup ''  connect web'') \<and>
   step env0 web_world (Line ''  connect web'') =
     Continue (web_world\<lparr>outputs := [unknown_command ''  connect web'']\<rparr>)"
proof -
  have t: "list_all (\<lambda>c. \<not> prefix c (first_token ''  connect web'')) commands"
    by (simp add: commands_def first_token_def is_space_def)
  have h: "html_ok env0 (unknown_markup ''  connect web'')"
    by (simp add: env0_def unknown_markup_def)
  from t have "\<forall>c\<in>set commands. \<not> prefix c (first_token ''  connect web'')"
    by (simp add: list_all_iff)
  then have "step env0 web_world (Line ''  connect web'') =
     Continue (web_world\<lparr>outputs := outputs web_world @ [unknown_command ''  connect web'']\<rparr>)"
    using unmatched_line_is_unknown_command[OF parse_web_world _ h] by blast
  moreover have "outputs web_world = []" by (simp add: web_world_def)
  ultimately show ?thesis using parse_web_world t h by simp
qed

theorem first_token_dispatch_counterexample:
  "first_token '' exit'' = ''exit'' \<and>
   step env0 web_world (Line ''exit'') = Terminated 0 web_world \<and>
   step env0 web_world (Line '' exit'') =
     Continue (web_world\<lparr>outputs := [unknown_command '' exit'']\<rparr>)"
proof -
  have "first_token '' exit'' = ''exit''"
    by (simp add: first_token_def is_space_def)
  moreover have "step env0 web_world (Line ''exit'') = Terminated 0 web_world"
    using parse_web_world by (simp add: step_def dispatch_def)
  moreover have "step env0 web_world (Line '' exit'') =
     Continue (web_world\<lparr>outputs := [unknown_command '' exit'']\<rparr>)"
    using parse_web_world
    by (simp add: step_def dispatch_def emit_def web_world_def env0_def unknown_markup_def)
  ultimately show ?thesis by simp
qed

text \<open>
  A line that makes the message ill-formed markup: the formatter raises, nothing is
  printed and the exception ends the loop.
\<close>

lemma run_markup_line:
  "run env0 web_world (Line ''a & b'' # rest) = Crashed ExpatError web_world"
  using parse_web_world
  by (simp add: step_def dispatch_def env0_def unknown_markup_def)

text \<open>
  C7. The loop is meant to end only on \<open>exit\<close> and on end of input. The line
  \<open>configure\<close> without an argument ends it as well: \<open>configure\<close> reads the first
  element of an empty argument list, and the exception is caught nowhere, whatever input
  follows.
\<close>

theorem configure_without_argument_ends_loop:
  "run e web_world (Line ''configure'' # rest) = Crashed IndexError web_world"
  using parse_web_world by (simp add: step_def dispatch_def configure_def)

lemma run_list_empty:
  "run e empty_world (Line ''list'' # rest) = Crashed ValueError empty_world"
  using parse_empty_world list_config_on_empty[OF parse_empty_world]
  by (simp add: step_def dispatch_def)

subsection \<open>Overwriting a host\<close>

lemma well_formed_old_a: "well_formed old_a"
  by (simp add: well_formed_def token_def old_a_def is_space_def port_within_limit)

lemma parse_a_world: "file_to_dataclass (config a_world) = Inr [old_a]"
  using parse_written[of "[old_a]"] by (simp add: a_world_def well_formed_old_a)

text \<open>
  The integers that \<open>int(...)\<close> returns have at most 4300 digits, and those are the
  integers that \<open>str(...)\<close> writes. So writing the file raises neither on a port that
  the parser has read nor on a port that the port prompt of the wizard has given.
\<close>

lemma int_digits_bound:
  "int_digits acc s = Inr n \<Longrightarrow> n < (acc + 1) * 10 ^ length (filter is_digit s)"
proof (induction acc s rule: int_digits.induct)
  case (1 acc)
  then show ?case by simp
next
  case (2 acc c cs)
  show ?case
  proof (cases "is_digit c")
    case True
    with "2.prems" have "int_digits (10 * acc + digit_val c) cs = Inr n" by simp
    from "2.IH"(1)[OF True this]
    have b: "n < (10 * acc + digit_val c + 1) * 10 ^ length (filter is_digit cs)" .
    from True have "digit_val c \<le> 9"
      unfolding is_digit_def digit_val_def Let_def by linarith
    then have "10 * acc + digit_val c + 1 \<le> (acc + 1) * 10" by simp
    then have "(10 * acc + digit_val c + 1) * 10 ^ length (filter is_digit cs)
                 \<le> ((acc + 1) * 10) * 10 ^ length (filter is_digit cs)"
      by (rule mult_right_mono) simp
    with b have "n < ((acc + 1) * 10) * 10 ^ length (filter is_digit cs)"
      by (rule less_le_trans)
    also have "((acc + 1) * 10) * 10 ^ length (filter is_digit cs) =
               (acc + 1) * 10 ^ Suc (length (filter is_digit cs))"
      by (simp only: power_Suc mult.assoc)
    finally show ?thesis using True by simp
  next
    case False
    with "2.prems" have u: "c = CHR ''_'' \<and> cs \<noteq> [] \<and> is_digit (hd cs)"
      and "int_digits acc cs = Inr n"
      by (simp_all split: if_splits)
    from "2.IH"(2)[OF False u this(2)] False show ?thesis by simp
  qed
qed

lemma int_unsigned_bound:
  assumes "int_unsigned s = Inr n"
  shows "n < 10 ^ MAX_STR_DIGITS"
proof -
  from assms have l: "length (filter is_digit s) \<le> MAX_STR_DIGITS"
    and d: "int_digits 0 s = Inr n"
    by (auto simp: int_unsigned_def split: if_splits list.splits)
  from int_digits_bound[OF d] have "n < 10 ^ length (filter is_digit s)" by simp
  also from l have "(10::nat) ^ length (filter is_digit s) \<le> 10 ^ MAX_STR_DIGITS"
    by (intro power_increasing) simp_all
  finally show ?thesis .
qed

lemma py_int_bound:
  assumes "py_int s = Inr n"
  shows "\<bar>n\<bar> < 10 ^ MAX_STR_DIGITS"
proof -
  from assms obtain t m where "int_unsigned t = Inr m" "\<bar>n\<bar> = int m"
    by (auto simp: py_int_def map_sum_def split: list.splits if_splits sum.splits)
  with int_unsigned_bound[of t m] show ?thesis
    by (metis of_nat_less_iff of_nat_numeral of_nat_power)
qed

lemma py_str_bounded:
  assumes "\<bar>n\<bar> < 10 ^ MAX_STR_DIGITS"
  shows "\<exists>s. py_str n = Inr s"
proof -
  from assms have "nat \<bar>n\<bar> < 10 ^ MAX_STR_DIGITS"
    by (metis abs_ge_zero nat_less_iff of_nat_numeral of_nat_power)
  with dec_length_limit[of "nat \<bar>n\<bar>"] show ?thesis
    by (auto simp: py_str_def Let_def)
qed

lemma dataclass_to_file_bounded:
  "\<forall>r\<in>set rs. \<bar>port r\<bar> < 10 ^ MAX_STR_DIGITS \<Longrightarrow> fst (dataclass_to_file rs) = Inr ()"
proof (induction rs)
  case Nil
  then show ?case by simp
next
  case (Cons r rs)
  then have "\<bar>port r\<bar> < 10 ^ MAX_STR_DIGITS" by simp
  from py_str_bounded[OF this] obtain b where "block r = Inr b"
    by (auto simp: block_def bind_err_def)
  with Cons show ?case by (cases "dataclass_to_file rs") simp
qed

lemma config_of_match_port:
  assumes "config_of_match g = Inr r"
  shows "\<exists>p. py_int p = Inr (port r)"
  using assms by (auto simp: config_of_match_def bind_err_def split: sum.splits)

lemma collect_ports:
  "collect gs = Inr rs \<Longrightarrow> \<forall>r\<in>set rs. \<exists>p. py_int p = Inr (port r)"
proof (induction gs arbitrary: rs)
  case Nil
  then show ?case by simp
next
  case (Cons g gs)
  from Cons.prems obtain r rs' where g: "config_of_match g = Inr r"
    and c: "collect gs = Inr rs'" and rs: "rs = r # rs'"
    by (auto simp: bind_err_def split: sum.splits)
  from config_of_match_port[OF g] Cons.IH[OF c] rs show ?case by simp
qed

lemma parsed_ports_bounded:
  assumes "file_to_dataclass file = Inr rs"
  shows "\<forall>r\<in>set rs. \<bar>port r\<bar> < 10 ^ MAX_STR_DIGITS"
proof -
  from assms obtain content where "collect (finditer content) = Inr rs"
    by (auto simp: file_to_dataclass_def split: option.splits)
  from collect_ports[OF this] show ?thesis by (auto dest: py_int_bound)
qed

lemma config_fold_print: "config (fold print xs w) = config w"
  by (induction xs arbitrary: w) (simp_all add: print_def emit_def)

lemma add_host_write_config:
  assumes "keygen e (key_path e hn) = Inr pk"
  shows "\<exists>w'. add_host_write e hn alias usr prt hosts w ins =
                 (fst (dataclass_to_file (hosts @
                    [\<lparr>ID = alias, hostname = hn, user = usr, port = prt,
                      key_file = key_path e hn\<rparr>])), w', ins) \<and>
              config w' = Some (snd (dataclass_to_file (hosts @
                [\<lparr>ID = alias, hostname = hn, user = usr, port = prt,
                  key_file = key_path e hn\<rparr>])))"
proof -
  let ?new = "\<lparr>ID = alias, hostname = hn, user = usr, port = prt, key_file = key_path e hn\<rparr>"
  obtain r written where d: "dataclass_to_file (hosts @ [?new]) = (r, written)"
    by (cases "dataclass_to_file (hosts @ [?new])")
  show ?thesis
  proof (cases r)
    case (Inl err)
    with assms d show ?thesis by (simp add: add_host_write_def Let_def)
  next
    case (Inr u)
    with assms d show ?thesis by (simp add: add_host_write_def Let_def config_fold_print)
  qed
qed

lemma filter_all_same:
  "\<forall>h\<in>set hosts. hostname h = hn \<Longrightarrow> filter (\<lambda>h. hostname h \<noteq> hn) hosts = []"
  by (induction hosts) auto

text \<open>
  C2. The existing records are those of the configuration file, and one of them has the
  hostname of the new record. When the overwrite is confirmed (and the keys are
  generated), every existing record with that hostname is dropped, whatever its id, the
  new record is appended at the end and the result is written: the call ends as the
  writing ends, which is without an exception for every port that the port prompt can
  have given, and the file holds what was written; if all existing records have that
  hostname, in particular if there is a single one, exactly the new record is written.
  When the overwrite is declined, the wizard returns and the file is unchanged.
\<close>

theorem add_host_overwrite_policy:
  assumes "file_to_dataclass (config w) = Inr hosts"
    and "\<exists>h\<in>set hosts. hostname h = hn"
  shows
    "(\<forall>ins' pk. yes ins = (Inr True, ins') \<and> keygen e (key_path e hn) = Inr pk \<longrightarrow>
        (\<exists>w'. add_host_store e hn alias usr prt w ins =
                 (fst (dataclass_to_file (filter (\<lambda>h. hostname h \<noteq> hn) hosts @
                    [\<lparr>ID = alias, hostname = hn, user = usr, port = prt,
                      key_file = key_path e hn\<rparr>])), w', ins') \<and>
           config w' = Some (snd (dataclass_to_file (filter (\<lambda>h. hostname h \<noteq> hn) hosts @
             [\<lparr>ID = alias, hostname = hn, user = usr, port = prt, key_file = key_path e hn\<rparr>]))) \<and>
           (\<bar>prt\<bar> < 10 ^ MAX_STR_DIGITS \<longrightarrow>
              add_host_store e hn alias usr prt w ins = (Inr (), w', ins')) \<and>
           ((\<forall>h\<in>set hosts. hostname h = hn) \<longrightarrow>
              config w' = Some (snd (dataclass_to_file
                [\<lparr>ID = alias, hostname = hn, user = usr, port = prt,
                  key_file = key_path e hn\<rparr>]))))) \<and>
     (\<forall>ins'. yes ins = (Inr False, ins') \<longrightarrow>
        (\<exists>w'. add_host_store e hn alias usr prt w ins = (Inr (), w', ins') \<and>
           config w' = config w))"
proof (intro conjI allI impI)
  fix ins' pk
  assume a: "yes ins = (Inr True, ins') \<and> keygen e (key_path e hn) = Inr pk"
  let ?w1 = "emit (Stderr (''There is already a configuration for the host '' @ hn @
                        '', do you want to overwrite it? [Y/n] '')) w"
  let ?kept = "filter (\<lambda>h. hostname h \<noteq> hn) hosts"
  let ?new = "\<lparr>ID = alias, hostname = hn, user = usr, port = prt, key_file = key_path e hn\<rparr>"
  from assms(2) have ex: "list_ex (\<lambda>h. hn = hostname h) hosts"
    by (auto simp: list_ex_iff)
  from a have k: "keygen e (key_path e hn) = Inr pk" by simp
  from add_host_write_config[OF k, of "alias" usr prt "?kept" "?w1" "ins'"]
  obtain w' where w': "add_host_write e hn alias usr prt ?kept ?w1 ins' =
      (fst (dataclass_to_file (?kept @ [?new])), w', ins')"
    "config w' = Some (snd (dataclass_to_file (?kept @ [?new])))"
    by blast
  have s: "add_host_store e hn alias usr prt w ins =
      (fst (dataclass_to_file (?kept @ [?new])), w', ins')"
    using assms(1) ex a w'(1) by (simp add: add_host_store_def Let_def)
  have b: "\<bar>prt\<bar> < 10 ^ MAX_STR_DIGITS \<longrightarrow>
      add_host_store e hn alias usr prt w ins = (Inr (), w', ins')"
  proof
    assume p: "\<bar>prt\<bar> < 10 ^ MAX_STR_DIGITS"
    from parsed_ports_bounded[OF assms(1)] p
    have "\<forall>r\<in>set (?kept @ [?new]). \<bar>port r\<bar> < 10 ^ MAX_STR_DIGITS" by simp
    then have "fst (dataclass_to_file (?kept @ [?new])) = Inr ()"
      by (rule dataclass_to_file_bounded)
    with s show "add_host_store e hn alias usr prt w ins = (Inr (), w', ins')" by simp
  qed
  have "(\<forall>h\<in>set hosts. hostname h = hn) \<longrightarrow>
      config w' = Some (snd (dataclass_to_file [?new]))"
    using w'(2) by (auto simp: filter_all_same)
  with s b w'(2)
  show "\<exists>w'. add_host_store e hn alias usr prt w ins =
                 (fst (dataclass_to_file (?kept @ [?new])), w', ins') \<and>
           config w' = Some (snd (dataclass_to_file (?kept @ [?new]))) \<and>
           (\<bar>prt\<bar> < 10 ^ MAX_STR_DIGITS \<longrightarrow>
              add_host_store e hn alias usr prt w ins = (Inr (), w', ins')) \<and>
           ((\<forall>h\<in>set hosts. hostname h = hn) \<longrightarrow>
              config w' = Some (snd (dataclass_to_file [?new])))"
    by blast
next
  fix ins'
  assume a: "yes ins = (Inr False, ins')"
  from assms(2) have ex: "list_ex (\<lambda>h. hn = hostname h) hosts"
    by (auto simp: list_ex_iff)
  show "\<exists>w'. add_host_store e hn alias usr prt w ins = (Inr (), w', ins') \<and> config w' = config w"
    using assms(1) ex a by (simp add: add_host_store_def Let_def stderr_def emit_def)
qed

lemma lower_examples:
  "lower ''A.com'' = ''a.com''" "lower ''y'' = ''y''" "lower ''maybe'' = ''maybe''"
  "lower ''N'' = ''n''"
  by code_simp+

lemma wizard_a_confirm:
  "add_host env0 a_world [Line ''A.com '', Line [], Line [], Line [], Line ''y''] =
   add_host_store env0 ''a.com'' ''a'' ''admin'' 22 a_world [Line ''y'']"
  by (simp add: add_host_def add_host_probe_def add_host_ask_def split_once_def strip_def
      lower_examples is_space_def env0_def DEFAULT_USER_def)

lemma wizard_a_decline:
  "add_host env0 a_world [Line ''A.com '', Line [], Line [], Line [], Line ''maybe'', Line ''N''] =
   add_host_store env0 ''a.com'' ''a'' ''admin'' 22 a_world [Line ''maybe'', Line ''N'']"
  by (simp add: add_host_def add_host_probe_def add_host_ask_def split_once_def strip_def
      lower_examples is_space_def env0_def DEFAULT_USER_def)

theorem add_host_overwrite_policy_witness:
  "file_to_dataclass (config a_world) = Inr [old_a] \<and> hostname old_a = ''a.com'' \<and>
   ID old_a \<noteq> ID new_a \<and>
   fst (add_host env0 a_world [Line ''A.com '', Line [], Line [], Line [], Line ''y'']) = Inr () \<and>
   config (fst (snd (add_host env0 a_world
      [Line ''A.com '', Line [], Line [], Line [], Line ''y'']))) =
     Some (snd (dataclass_to_file [new_a])) \<and>
   file_to_dataclass (Some (snd (dataclass_to_file [new_a]))) = Inr [new_a] \<and>
   config (fst (snd (add_host env0 a_world
      [Line ''A.com '', Line [], Line [], Line [], Line ''maybe'', Line ''N'']))) =
     config a_world"
proof -
  have h: "\<exists>h\<in>set [old_a]. hostname h = ''a.com''" by (simp add: old_a_def)
  have y: "yes [Line ''y''] = (Inr True, [])"
    by (simp add: strip_def lower_examples is_space_def)
  have n: "yes [Line ''maybe'', Line ''N''] = (Inr False, [])"
    by (simp add: strip_def lower_examples is_space_def)
  have k: "keygen env0 (key_path env0 ''a.com'') = Inr ''ssh-ed25519 AAAA''"
    by (simp add: env0_def)
  have p: "key_path env0 ''a.com'' = ''/home/u/.ssh/keys/a_com''"
    by (simp add: key_path_def SSH_KEY_DIR_def env0_def replace_chr_def)
  have b: "\<bar>22::int\<bar> < 10 ^ MAX_STR_DIGITS"
    using port_within_limit[of 22] by simp
  have wf: "well_formed new_a"
    by (simp add: well_formed_def token_def new_a_def is_space_def port_within_limit)
  note t = add_host_overwrite_policy[OF parse_a_world h, of _ env0 "''a''" "''admin''" 22]
  from t[of "[Line ''y'']"] y k p b
  have 1: "fst (add_host_store env0 ''a.com'' ''a'' ''admin'' 22 a_world [Line ''y'']) = Inr () \<and>
     config (fst (snd (add_host_store env0 ''a.com'' ''a'' ''admin'' 22 a_world [Line ''y'']))) =
     Some (snd (dataclass_to_file [new_a]))"
    by (auto simp: new_a_def old_a_def simp del: yes.simps dataclass_to_file.simps)
  from t[of "[Line ''maybe'', Line ''N'']"] n
  have 2: "config (fst (snd (add_host_store env0 ''a.com'' ''a'' ''admin'' 22 a_world
      [Line ''maybe'', Line ''N'']))) = config a_world"
    by (auto simp del: yes.simps dataclass_to_file.simps)
  have 3: "file_to_dataclass (Some (snd (dataclass_to_file [new_a]))) = Inr [new_a]"
    using parse_written[of "[new_a]"] wf by simp
  show ?thesis
    using 1 2 3 parse_a_world unfolding wizard_a_confirm wizard_a_decline
    by (simp add: old_a_def new_a_def del: dataclass_to_file.simps)
qed

end
